theory Spec2Isabelle
  imports Main "HOL-Library.Word" "HOL-Library.List_Lexorder"
begin

section \<open>Data model\<close>

text \<open>
  The commands of \<^verbatim>\<open>internal/cmd/docs.go\<close> work on values of the Google Docs client
  library. A Go pointer is an \<open>option\<close> (\<open>None\<close> is \<^verbatim>\<open>nil\<close>), a slice is a list, a
  string is a list of bytes, \<^verbatim>\<open>int64\<close> is a 64-bit word read with \<open>sint\<close>. Only the
  fields that the modelled functions read are kept. A nil pointer that the source
  dereferences without a check is a run-time panic, the value \<open>Inl NilDereference\<close>.
\<close>

type_synonym int64 = "64 word"

datatype panic = NilDereference

record text_run =
  TextRun_Content :: string

record paragraph_element =
  TextRun :: "text_run option"

record docs_paragraph =
  Elements :: "paragraph_element option list"

datatype structural_element =
  StructuralElement
    (EndIndex: int64)
    (Paragraph: "docs_paragraph option")
    (Table: "table option")
    (TableOfContents: "table_of_contents option")
and table = MkTable (TableRows: "table_row option list")
and table_row = MkTableRow (TableCells: "table_cell option list")
and table_cell = MkTableCell (TableCell_Content: "structural_element option list")
and table_of_contents =
  MkTableOfContents (TableOfContents_Content: "structural_element option list")

record body =
  Body_Content :: "structural_element option list"

record document_tab =
  DocumentTab_Body :: "body option"

record tab_properties =
  TabId :: string
  Title :: string

datatype tab =
  Tab (TabProperties: "tab_properties option")
      (DocumentTab: "document_tab option")
      (ChildTabs: "tab option list")

record document =
  Body :: "body option"
  Tabs :: "tab option list"

section \<open>Bounded plain-text extraction\<close>

text \<open>
  \<^verbatim>\<open>appendLimited(buf, maxBytes, s)\<close> writes \<open>s\<close> to the buffer, or the part of it that
  still fits, and reports whether the walk may go on:
  \<^verbatim>\<open>
  if maxBytes <= 0 { buf.WriteString(s); return true }
  remaining := int(maxBytes) - buf.Len()
  if remaining <= 0 { return false }
  if len(s) > remaining { buf.WriteString(s[:remaining]); return false }
  buf.WriteString(s); return true
  \<close>
  The buffer is passed in and returned. Go's \<^verbatim>\<open>int\<close> is taken to be 64 bits wide, so
  \<^verbatim>\<open>int(maxBytes)\<close> is \<open>sint maxBytes\<close>; the difference is only computed for
  \<open>0 < maxBytes\<close> and a length that is not negative, so it cannot overflow and is
  computed in \<open>int\<close>.
\<close>

definition appendLimited :: "string \<Rightarrow> int64 \<Rightarrow> string \<Rightarrow> bool \<times> string" where
  "appendLimited buf maxBytes s =
     (if sint maxBytes \<le> 0 then (True, buf @ s)
      else let remaining = sint maxBytes - int (length buf) in
        if remaining \<le> 0 then (False, buf)
        else if int (length s) > remaining then (False, buf @ take (nat remaining) s)
        else (True, buf @ s))"

text \<open>
  \<open>andThen r k\<close> is the source's \<^verbatim>\<open>if !f(...) { return false }\<close> followed by the rest
  \<open>k\<close> of the loop body: a panic or a \<^verbatim>\<open>false\<close> ends the walk with the buffer as it is.
\<close>

definition andThen ::
  "panic + bool \<times> string \<Rightarrow> (string \<Rightarrow> panic + bool \<times> string) \<Rightarrow> panic + bool \<times> string" where
  "andThen r k =
     (case r of
        Inl e \<Rightarrow> Inl e
      | Inr x \<Rightarrow> if fst x then k (snd x) else Inr (False, snd x))"

lemma andThen_cong [fundef_cong]:
  "r = r' \<Longrightarrow> (\<And>b. k b = k' b) \<Longrightarrow> andThen r k = andThen r' k'"
  by (simp add: andThen_def split: sum.splits)

text \<open>The loop over \<^verbatim>\<open>el.Paragraph.Elements\<close>; \<^verbatim>\<open>p.TextRun\<close> panics on a nil \<open>p\<close>.\<close>

fun appendParagraphElements ::
  "string \<Rightarrow> int64 \<Rightarrow> paragraph_element option list \<Rightarrow> panic + bool \<times> string" where
  "appendParagraphElements buf maxBytes [] = Inr (True, buf)"
| "appendParagraphElements buf maxBytes (p # ps) =
     (case p of
        None \<Rightarrow> Inl NilDereference
      | Some pe \<Rightarrow>
          (case TextRun pe of
             None \<Rightarrow> appendParagraphElements buf maxBytes ps
           | Some tr \<Rightarrow>
               andThen (Inr (appendLimited buf maxBytes (TextRun_Content tr)))
                 (\<lambda>buf'. appendParagraphElements buf' maxBytes ps)))"

lemma size_TableRows:
  "Table el = Some t \<Longrightarrow> size_list (size_option size) (TableRows t) < size el"
  by (cases el; cases t) simp

lemma size_TableOfContents_Content:
  "TableOfContents el = Some c \<Longrightarrow>
     size_list (size_option size) (TableOfContents_Content c) < size el"
  by (cases el; cases c) simp

lemma size_TableCells: "size_list (size_option size) (TableCells r) < size r"
  by (cases r) simp

lemma size_TableCell_Content: "size_list (size_option size) (TableCell_Content c) < size c"
  by (cases c) simp

text \<open>
  \<^verbatim>\<open>appendDocsElementText\<close> with its loops: \<open>appendContent\<close> is the loop over
  \<^verbatim>\<open>cell.Content\<close> and over \<^verbatim>\<open>el.TableOfContents.Content\<close>, \<open>appendTableCells\<close> the loop
  over \<^verbatim>\<open>row.TableCells\<close> from index \<open>cellIdx\<close> on, \<open>appendTableRows\<close> the loop over
  \<^verbatim>\<open>el.Table.TableRows\<close> from index \<open>rowIdx\<close> on. The separator is written before the
  row or the cell is dereferenced, as in the source.
\<close>

function appendDocsElementText ::
      "string \<Rightarrow> int64 \<Rightarrow> structural_element option \<Rightarrow> panic + bool \<times> string"
  and appendContent ::
      "string \<Rightarrow> int64 \<Rightarrow> structural_element option list \<Rightarrow> panic + bool \<times> string"
  and appendTableCells ::
      "string \<Rightarrow> int64 \<Rightarrow> nat \<Rightarrow> table_cell option list \<Rightarrow> panic + bool \<times> string"
  and appendTableRows ::
      "string \<Rightarrow> int64 \<Rightarrow> nat \<Rightarrow> table_row option list \<Rightarrow> panic + bool \<times> string"
where
  "appendDocsElementText buf maxBytes None = Inr (True, buf)"
| "appendDocsElementText buf maxBytes (Some el) =
     (case Paragraph el of
        Some p \<Rightarrow> appendParagraphElements buf maxBytes (Elements p)
      | None \<Rightarrow>
          (case Table el of
             Some t \<Rightarrow> appendTableRows buf maxBytes 0 (TableRows t)
           | None \<Rightarrow>
               (case TableOfContents el of
                  Some c \<Rightarrow> appendContent buf maxBytes (TableOfContents_Content c)
                | None \<Rightarrow> Inr (True, buf))))"
| "appendContent buf maxBytes [] = Inr (True, buf)"
| "appendContent buf maxBytes (content # rest) =
     andThen (appendDocsElementText buf maxBytes content)
       (\<lambda>buf'. appendContent buf' maxBytes rest)"
| "appendTableCells buf maxBytes cellIdx [] = Inr (True, buf)"
| "appendTableCells buf maxBytes cellIdx (cell # cells) =
     andThen (if cellIdx > 0 then Inr (appendLimited buf maxBytes [CHR 0x09])
              else Inr (True, buf))
       (\<lambda>buf'. case cell of
           None \<Rightarrow> Inl NilDereference
         | Some c \<Rightarrow>
             andThen (appendContent buf' maxBytes (TableCell_Content c))
               (\<lambda>buf''. appendTableCells buf'' maxBytes (Suc cellIdx) cells))"
| "appendTableRows buf maxBytes rowIdx [] = Inr (True, buf)"
| "appendTableRows buf maxBytes rowIdx (row # rows) =
     andThen (if rowIdx > 0 then Inr (appendLimited buf maxBytes [CHR 0x0A])
              else Inr (True, buf))
       (\<lambda>buf'. case row of
           None \<Rightarrow> Inl NilDereference
         | Some r \<Rightarrow>
             andThen (appendTableCells buf' maxBytes 0 (TableCells r))
               (\<lambda>buf''. appendTableRows buf'' maxBytes (Suc rowIdx) rows))"
  by pat_completeness auto

termination
  apply (relation "measure (\<lambda>x. case x of
            Inl (Inl (b, n, el)) \<Rightarrow> size_option size el
          | Inl (Inr (b, n, els)) \<Rightarrow> size_list (size_option size) els
          | Inr (Inl (b, n, i, cells)) \<Rightarrow> size_list (size_option size) cells
          | Inr (Inr (b, n, i, rows)) \<Rightarrow> size_list (size_option size) rows)")
  apply (auto dest: size_TableRows size_TableOfContents_Content
              simp: less_Suc_eq_le trans_less_add1 less_imp_le
                    size_TableCells size_TableCell_Content)
  done

text \<open>
  The loop of \<^verbatim>\<open>docsPlainText\<close> and of \<^verbatim>\<open>tabPlainText\<close> over the body's content, which
  leaves with \<^verbatim>\<open>break\<close> and returns \<^verbatim>\<open>buf.String()\<close>.
\<close>

fun bodyContentText ::
  "string \<Rightarrow> int64 \<Rightarrow> structural_element option list \<Rightarrow> panic + string" where
  "bodyContentText buf maxBytes [] = Inr buf"
| "bodyContentText buf maxBytes (el # els) =
     (case appendDocsElementText buf maxBytes el of
        Inl e \<Rightarrow> Inl e
      | Inr x \<Rightarrow> if fst x then bodyContentText (snd x) maxBytes els else Inr (snd x))"

definition docsPlainText :: "document option \<Rightarrow> int64 \<Rightarrow> panic + string" where
  "docsPlainText doc maxBytes =
     (case doc of
        None \<Rightarrow> Inr []
      | Some d \<Rightarrow>
          (case Body d of
             None \<Rightarrow> Inr []
           | Some b \<Rightarrow> bodyContentText [] maxBytes (Body_Content b)))"

definition tabPlainText :: "tab option \<Rightarrow> int64 \<Rightarrow> panic + string" where
  "tabPlainText tab maxBytes =
     (case tab of
        None \<Rightarrow> Inr []
      | Some t \<Rightarrow>
          (case DocumentTab t of
             None \<Rightarrow> Inr []
           | Some dt \<Rightarrow>
               (case DocumentTab_Body dt of
                  None \<Rightarrow> Inr []
                | Some b \<Rightarrow> bodyContentText [] maxBytes (Body_Content b))))"

section \<open>Tabs\<close>

text \<open>
  \<^verbatim>\<open>flattenTabs\<close> skips a nil tab, appends the tab, then the flattened children when
  there are any, and goes on with the next sibling:
  \<^verbatim>\<open>
  for _, tab := range tabs {
      if tab == nil { continue }
      result = append(result, tab)
      if len(tab.ChildTabs) > 0 { result = append(result, flattenTabs(tab.ChildTabs)...) }
  }
  return result
  \<close>
\<close>

lemma size_ChildTabs: "size_list (size_option size) (ChildTabs t) < size t"
  by (cases t) simp

function flattenTabs :: "tab option list \<Rightarrow> tab option list" where
  "flattenTabs [] = []"
| "flattenTabs (tab # tabs) =
     (case tab of
        None \<Rightarrow> flattenTabs tabs
      | Some t \<Rightarrow>
          Some t # (if length (ChildTabs t) > 0 then flattenTabs (ChildTabs t) else [])
                 @ flattenTabs tabs)"
  by pat_completeness auto
termination
  apply (relation "measure (size_list (size_option size))")
  apply (auto simp: less_Suc_eq_le)
  subgoal for tabs t using size_ChildTabs [of t] by linarith
  done

text \<open>
  \<^verbatim>\<open>findTab\<close> trims the query, scans all tabs for the identifier, then all tabs for the
  lower-cased title:
  \<^verbatim>\<open>
  query = strings.TrimSpace(query)
  for _, tab := range tabs {
      if tab.TabProperties != nil && tab.TabProperties.TabId == query { return tab }
  }
  lower := strings.ToLower(query)
  for _, tab := range tabs {
      if tab.TabProperties != nil && strings.ToLower(tab.TabProperties.Title) == lower { return tab }
  }
  return nil
  \<close>
  \<^verbatim>\<open>tab.TabProperties\<close> panics on a nil tab. \<^verbatim>\<open>strings.TrimSpace\<close> and
  \<^verbatim>\<open>strings.ToLower\<close> belong to Go's standard library; they are the parameters
  \<open>trimSpace\<close> and \<open>toLower\<close>.
\<close>

fun findTabById :: "string \<Rightarrow> tab option list \<Rightarrow> panic + tab option" where
  "findTabById query [] = Inr None"
| "findTabById query (tab # tabs) =
     (case tab of
        None \<Rightarrow> Inl NilDereference
      | Some t \<Rightarrow>
          if (case TabProperties t of None \<Rightarrow> False | Some p \<Rightarrow> TabId p = query)
          then Inr (Some t)
          else findTabById query tabs)"

fun findTabByTitle :: "(string \<Rightarrow> string) \<Rightarrow> string \<Rightarrow> tab option list \<Rightarrow> panic + tab option" where
  "findTabByTitle toLower lower [] = Inr None"
| "findTabByTitle toLower lower (tab # tabs) =
     (case tab of
        None \<Rightarrow> Inl NilDereference
      | Some t \<Rightarrow>
          if (case TabProperties t of None \<Rightarrow> False | Some p \<Rightarrow> toLower (Title p) = lower)
          then Inr (Some t)
          else findTabByTitle toLower lower tabs)"

definition findTab ::
  "(string \<Rightarrow> string) \<Rightarrow> (string \<Rightarrow> string) \<Rightarrow> tab option list \<Rightarrow> string \<Rightarrow> panic + tab option" where
  "findTab trimSpace toLower tabs query =
     (let query = trimSpace query in
      case findTabById query tabs of
        Inl e \<Rightarrow> Inl e
      | Inr (Some t) \<Rightarrow> Inr (Some t)
      | Inr None \<Rightarrow> findTabByTitle toLower (toLower query) tabs)"

section \<open>The update command\<close>

text \<open>
  \<^verbatim>\<open>DocsUpdateCmd.Run\<close> is modelled from the point where the document has been fetched
  (\<^verbatim>\<open>insertIndex := int64(1)\<close>) to the end of the table loop. An \<^verbatim>\<open>error\<close> is a message
  or \<^verbatim>\<open>fmt.Errorf("...: %w", err)\<close> around another error. Of the kinds of
  \<^verbatim>\<open>docs.Request\<close>, the two that the command builds are kept with the fields it sets;
  a text-style or paragraph-style request is opaque, given by its encoding.

  The calls to the remote services are recorded in a log of events, each with the
  arguments and the answer. The services and the functions of this repository that are
  not in the source are parameters: \<open>markdownToDocsRequests env content baseIndex\<close> is
  \<^verbatim>\<open>MarkdownToDocsRequests(ParseMarkdown(content), baseIndex)\<close>, \<open>batchUpdate\<close> is
  \<^verbatim>\<open>svc.Documents.BatchUpdate(id, ...).Do()\<close> and \<open>insertNativeTable\<close> is
  \<^verbatim>\<open>tableInserter.InsertNativeTable\<close>. A service sees the events so far, so its answer
  may depend on everything done before.
\<close>

datatype error = Error string | Wrap string error

datatype request =
    InsertTextRequest int64 string
  | DeleteContentRangeRequest int64 int64
  | FormattingRequest string
  | InsertInlineImageRequest int64 string

record table_data =
  StartIndex :: int64
  Cells :: "string list list"

datatype event =
    BatchUpdate "request list" "error option"
  | InsertNativeTable int64 "string list list" "error + int64"
  | UploadLocalImage string "error + string \<times> string"
  | CleanupDriveFileIDsBestEffort "string list"

record update_env =
  markdownToDocsRequests :: "string \<Rightarrow> int64 \<Rightarrow> request list \<times> string \<times> table_data list"
  batchUpdate :: "event list \<Rightarrow> request list \<Rightarrow> error option"
  insertNativeTable :: "event list \<Rightarrow> int64 \<Rightarrow> string list list \<Rightarrow> error + int64"

text \<open>
  The loop over the tables with the running \<^verbatim>\<open>tableOffset\<close>:
  \<^verbatim>\<open>
  for _, table := range tables {
      tableIndex := table.StartIndex + tableOffset
      tableEnd, err := tableInserter.InsertNativeTable(ctx, tableIndex, table.Cells)
      if err != nil { return fmt.Errorf("insert native table: %w", err) }
      if tableEnd > tableIndex { tableOffset += (tableEnd - tableIndex) - 1 }
  }
  \<close>
  The arithmetic is that of \<^verbatim>\<open>int64\<close>; \<^verbatim>\<open>tableEnd > tableIndex\<close> compares signed values.
\<close>

fun insertTables ::
  "update_env \<Rightarrow> int64 \<Rightarrow> table_data list \<Rightarrow> event list \<Rightarrow> error option \<times> event list" where
  "insertTables env tableOffset [] log = (None, log)"
| "insertTables env tableOffset (table # tables) log =
     (let tableIndex = StartIndex table + tableOffset;
          r = insertNativeTable env log tableIndex (Cells table);
          log' = log @ [InsertNativeTable tableIndex (Cells table) r]
      in case r of
           Inl err \<Rightarrow> (Some (Wrap ''insert native table'' err), log')
         | Inr tableEnd \<Rightarrow>
             insertTables env
               (if sint tableIndex < sint tableEnd
                then tableOffset + ((tableEnd - tableIndex) - 1) else tableOffset)
               tables log')"

text \<open>
  \<open>c\<close> is the command; of its fields only \<^verbatim>\<open>Append\<close> is read after the document has
  been fetched. \<open>format\<close> and \<open>content\<close> are the local variables of that name; the
  format has been checked to be \<^verbatim>\<open>plain\<close> or \<^verbatim>\<open>markdown\<close>. \<open>doc\<close> is the fetched
  document, which is not nil here. The index \<^verbatim>\<open>len(doc.Body.Content)-1\<close> is read only
  when the content is not empty, so \<open>last\<close> is read on a list that is not empty. The
  run ends with the error it returns, if any, and the log.
\<close>

record docs_update_cmd =
  Append :: bool

definition DocsUpdateCmd_Run ::
  "update_env \<Rightarrow> docs_update_cmd \<Rightarrow> string \<Rightarrow> string \<Rightarrow> document \<Rightarrow> event list
     \<Rightarrow> error option \<times> event list" where
  "DocsUpdateCmd_Run env c format content doc log =
     (let insertIndex =
            (if Append c then
               (case Body doc of
                  None \<Rightarrow> 1
                | Some b \<Rightarrow>
                    if length (Body_Content b) > 0 then
                      (case last (Body_Content b) of
                         None \<Rightarrow> 1
                       | Some lastEl \<Rightarrow>
                           if 1 < sint (EndIndex lastEl) then EndIndex lastEl - 1 else 1)
                    else 1)
             else 1);
          baseIndex = (if Append c then insertIndex else 1);
          compiled =
            (if format = ''markdown'' then markdownToDocsRequests env content baseIndex
             else ([], content, []));
          formattingRequests = fst compiled;
          textToInsert = fst (snd compiled);
          tables = snd (snd compiled);
          requests =
            (if Append c then
               [InsertTextRequest insertIndex textToInsert]
               @ (if format = ''markdown'' then formattingRequests else [])
             else
               (case Body doc of
                  None \<Rightarrow> []
                | Some b \<Rightarrow>
                    if length (Body_Content b) > 0 then
                      (case last (Body_Content b) of
                         None \<Rightarrow> []
                       | Some lastEl \<Rightarrow>
                           if 2 < sint (EndIndex lastEl)
                           then [DeleteContentRangeRequest 1 (EndIndex lastEl - 1)] else [])
                    else [])
               @ [InsertTextRequest 1 textToInsert]
               @ (if format = ''markdown'' then formattingRequests else []));
          r = batchUpdate env log requests;
          log' = log @ [BatchUpdate requests r]
      in case r of
           Some err \<Rightarrow> (Some (Wrap ''update document'' err), log')
         | None \<Rightarrow>
             if length tables > 0 then insertTables env 0 tables log' else (None, log'))"

section \<open>The image-insertion pass\<close>

text \<open>
  \<^verbatim>\<open>DocsCreateCmd.insertImages\<close>. The services and the helpers that are not in the source
  are parameters. \<^verbatim>\<open>placeholders\<close>, a Go map from the placeholder text, is an
  association list; \<^verbatim>\<open>imageURLs\<close> is a map from the image index.
\<close>

record markdown_image =
  index :: int
  originalRef :: string

record images_env =
  newDocsService :: "error option"
  documentsGet :: "error + document"
  findPlaceholderIndices :: "document \<Rightarrow> nat \<Rightarrow> (string \<times> int64 \<times> int64) list"
  placeholder :: "markdown_image \<Rightarrow> string"
  isRemote :: "markdown_image \<Rightarrow> bool"
  resolveMarkdownImagePath :: "string \<Rightarrow> string \<Rightarrow> error + string"
  uploadLocalImage :: "event list \<Rightarrow> string \<Rightarrow> error + string \<times> string"
  buildImageInsertRequests ::
    "(string \<times> int64 \<times> int64) list \<Rightarrow> markdown_image list \<Rightarrow> (int \<rightharpoonup> string) \<Rightarrow> request list"
  imagesBatchUpdate :: "event list \<Rightarrow> request list \<Rightarrow> error option"

text \<open>The loop \<^verbatim>\<open>for _, img := range images\<close>, which returns at the first error.\<close>

fun resolveImageURLs ::
  "images_env \<Rightarrow> string \<Rightarrow> (string \<times> int64 \<times> int64) list \<Rightarrow> markdown_image list
     \<Rightarrow> (int \<rightharpoonup> string) \<Rightarrow> string list \<Rightarrow> event list
     \<Rightarrow> (error + (int \<rightharpoonup> string) \<times> string list) \<times> event list" where
  "resolveImageURLs env file placeholders [] imageURLs tempFileIDs log =
     (Inr (imageURLs, tempFileIDs), log)"
| "resolveImageURLs env file placeholders (img # images) imageURLs tempFileIDs log =
     (if map_of placeholders (placeholder env img) = None then
        resolveImageURLs env file placeholders images imageURLs tempFileIDs log
      else if isRemote env img then
        resolveImageURLs env file placeholders images
          (imageURLs(index img \<mapsto> originalRef img)) tempFileIDs log
      else
        (case resolveMarkdownImagePath env file (originalRef img) of
           Inl resolveErr \<Rightarrow> (Inl resolveErr, log)
         | Inr realPath \<Rightarrow>
             (let r = uploadLocalImage env log realPath;
                  log' = log @ [UploadLocalImage realPath r]
              in case r of
                   Inl uploadErr \<Rightarrow> (Inl uploadErr, log')
                 | Inr uploaded \<Rightarrow>
                     resolveImageURLs env file placeholders images
                       (imageURLs(index img \<mapsto> fst uploaded))
                       (tempFileIDs @ [snd uploaded]) log')))"

text \<open>
  \<^verbatim>\<open>defer cleanupDriveFileIDsBestEffort(ctx, driveSvc, tempFileIDs)\<close> stands right after
  \<^verbatim>\<open>var tempFileIDs []string\<close>. Go evaluates the arguments of a deferred call when the
  \<^verbatim>\<open>defer\<close> statement runs, so the call that runs on return receives the slice as it
  is then: \<open>deferred\<close> is bound before the loop. The two returns before the
  \<^verbatim>\<open>defer\<close> statement run no cleanup.
\<close>

definition insertImages ::
  "images_env \<Rightarrow> string \<Rightarrow> markdown_image list \<Rightarrow> event list \<Rightarrow> error option \<times> event list" where
  "insertImages env file images log =
     (case newDocsService env of
        Some err \<Rightarrow> (Some err, log)
      | None \<Rightarrow>
          (case documentsGet env of
             Inl err \<Rightarrow> (Some (Wrap ''read back document'' err), log)
           | Inr doc \<Rightarrow>
               (let placeholders = findPlaceholderIndices env doc (length images) in
                if length placeholders = 0 then (None, log)
                else
                  (let tempFileIDs = [];
                       deferred = CleanupDriveFileIDsBestEffort tempFileIDs;
                       returned =
                         (case resolveImageURLs env file placeholders images Map.empty
                                 tempFileIDs log of
                            (Inl err, log') \<Rightarrow> (Some err, log')
                          | (Inr resolved, log') \<Rightarrow>
                              (let reqs = buildImageInsertRequests env placeholders images
                                            (fst resolved)
                               in if length reqs = 0 then (None, log')
                                  else (let r = imagesBatchUpdate env log' reqs
                                        in (r, log' @ [BatchUpdate reqs r]))))
                   in (fst returned, snd returned @ [deferred])))))"

section \<open>The text of a structural element, in the specification's words\<close>

text \<open>
  A paragraph is the concatenation of its text runs; a table is its rows joined by a
  newline, a row its cells joined by a tab, a cell the concatenation of its content; a
  table of contents is the concatenation of its content. Any other element, and a nil
  element, has no text.
\<close>

fun joinWith :: "string \<Rightarrow> string list \<Rightarrow> string" where
  "joinWith sep [] = []"
| "joinWith sep [x] = x"
| "joinWith sep (x # y # ys) = x @ sep @ joinWith sep (y # ys)"

definition textRunText :: "paragraph_element option \<Rightarrow> string" where
  "textRunText p =
     (case p of
        None \<Rightarrow> []
      | Some pe \<Rightarrow> (case TextRun pe of None \<Rightarrow> [] | Some tr \<Rightarrow> TextRun_Content tr))"

definition paragraphText :: "docs_paragraph \<Rightarrow> string" where
  "paragraphText p = concat (map textRunText (Elements p))"

lemma size_option_member:
  "x \<in> set xs \<Longrightarrow> size_option size x \<le> size_list (size_option size) xs"
  by (induction xs) auto

function elementText :: "structural_element option \<Rightarrow> string"
  and rowText :: "table_row option \<Rightarrow> string"
  and cellText :: "table_cell option \<Rightarrow> string"
where
  "elementText None = []"
| "elementText (Some el) =
     (case Paragraph el of
        Some p \<Rightarrow> paragraphText p
      | None \<Rightarrow>
          (case Table el of
             Some t \<Rightarrow> joinWith [CHR 0x0A] (map rowText (TableRows t))
           | None \<Rightarrow>
               (case TableOfContents el of
                  Some c \<Rightarrow> concat (map elementText (TableOfContents_Content c))
                | None \<Rightarrow> [])))"
| "rowText None = []"
| "rowText (Some r) = joinWith [CHR 0x09] (map cellText (TableCells r))"
| "cellText None = []"
| "cellText (Some c) = concat (map elementText (TableCell_Content c))"
  by pat_completeness auto

termination
  apply (relation "measure (\<lambda>x. case x of
            Inl el \<Rightarrow> size_option size el
          | Inr (Inl r) \<Rightarrow> size_option size r
          | Inr (Inr c) \<Rightarrow> size_option size c)")
  apply (auto dest!: size_option_member
      dest: size_TableRows size_TableOfContents_Content
      simp: less_Suc_eq_le)
  subgoal for r x using size_TableCells [of r] by linarith
  subgoal for c x using size_TableCell_Content [of c] by linarith
  done

text \<open>
  The content that \<^verbatim>\<open>docsPlainText\<close> and \<^verbatim>\<open>tabPlainText\<close> walk: the content of the body, none
  when the document, the tab, its DocumentTab or the body is nil.
\<close>

definition documentContent :: "document option \<Rightarrow> structural_element option list" where
  "documentContent doc =
     (case doc of
        None \<Rightarrow> []
      | Some d \<Rightarrow> (case Body d of None \<Rightarrow> [] | Some b \<Rightarrow> Body_Content b))"

definition tabContent :: "tab option \<Rightarrow> structural_element option list" where
  "tabContent tab =
     (case tab of
        None \<Rightarrow> []
      | Some t \<Rightarrow>
          (case DocumentTab t of
             None \<Rightarrow> []
           | Some dt \<Rightarrow> (case DocumentTab_Body dt of None \<Rightarrow> [] | Some b \<Rightarrow> Body_Content b)))"

text \<open>
  \<open>nilFreeElement\<close> holds when the walk meets no nil paragraph element, table row or
  table cell, the three pointers that the source dereferences without a check.
\<close>

function nilFreeElement :: "structural_element option \<Rightarrow> bool"
  and nilFreeRow :: "table_row option \<Rightarrow> bool"
  and nilFreeCell :: "table_cell option \<Rightarrow> bool"
where
  "nilFreeElement None = True"
| "nilFreeElement (Some el) =
     (case Paragraph el of
        Some p \<Rightarrow> list_all (\<lambda>pe. pe \<noteq> None) (Elements p)
      | None \<Rightarrow>
          (case Table el of
             Some t \<Rightarrow> list_all nilFreeRow (TableRows t)
           | None \<Rightarrow>
               (case TableOfContents el of
                  Some c \<Rightarrow> list_all nilFreeElement (TableOfContents_Content c)
                | None \<Rightarrow> True)))"
| "nilFreeRow None = False"
| "nilFreeRow (Some r) = list_all nilFreeCell (TableCells r)"
| "nilFreeCell None = False"
| "nilFreeCell (Some c) = list_all nilFreeElement (TableCell_Content c)"
  by pat_completeness auto

termination
  apply (relation "measure (\<lambda>x. case x of
            Inl el \<Rightarrow> size_option size el
          | Inr (Inl r) \<Rightarrow> size_option size r
          | Inr (Inr c) \<Rightarrow> size_option size c)")
  apply (auto dest!: size_option_member
      dest: size_TableRows size_TableOfContents_Content
      simp: less_Suc_eq_le)
  subgoal for r x using size_TableCells [of r] by linarith
  subgoal for c x using size_TableCell_Content [of c] by linarith
  done

text \<open>
  A tab of the tree is addressed by its path: the index of a top-level tab, then the
  index among its children, and so on. \<open>tabAt tabs path\<close> is the tab at that path, or
  \<open>None\<close> when the path leaves the tree or meets a nil tab. \<open>tabPaths i tabs\<close> lists the
  paths of the tabs of \<open>tabs\<close> and of their descendants, the first tab having index \<open>i\<close>.
\<close>

fun tabAt :: "tab option list \<Rightarrow> nat list \<Rightarrow> tab option" where
  "tabAt tabs [] = None"
| "tabAt tabs (i # path) =
     (if i < length tabs
      then (case tabs ! i of
              None \<Rightarrow> None
            | Some t \<Rightarrow> if path = [] then Some t else tabAt (ChildTabs t) path)
      else None)"

function tabPaths :: "nat \<Rightarrow> tab option list \<Rightarrow> nat list list" where
  "tabPaths i [] = []"
| "tabPaths i (tab # tabs) =
     (case tab of
        None \<Rightarrow> tabPaths (Suc i) tabs
      | Some t \<Rightarrow> [i] # map ((#) i) (tabPaths 0 (ChildTabs t)) @ tabPaths (Suc i) tabs)"
  by pat_completeness auto
termination
  apply (relation "measure (\<lambda>(i, tabs). size_list (size_option size) tabs)")
  apply (auto simp: less_Suc_eq_le)
  subgoal for tabs t using size_ChildTabs [of t] by linarith
  done

text \<open>
  The lookup in the specification's words: the first tab with the identifier, else the
  first tab with the title up to case, else no tab.
\<close>

definition tabHasId :: "string \<Rightarrow> tab \<Rightarrow> bool" where
  "tabHasId query t = (case TabProperties t of None \<Rightarrow> False | Some p \<Rightarrow> TabId p = query)"

definition tabHasTitle :: "(string \<Rightarrow> string) \<Rightarrow> string \<Rightarrow> tab \<Rightarrow> bool" where
  "tabHasTitle toLower query t =
     (case TabProperties t of None \<Rightarrow> False | Some p \<Rightarrow> toLower (Title p) = toLower query)"

definition findTabSpec :: "(string \<Rightarrow> string) \<Rightarrow> tab list \<Rightarrow> string \<Rightarrow> tab option" where
  "findTabSpec toLower ts query =
     (case find (tabHasId query) ts of
        Some t \<Rightarrow> Some t
      | None \<Rightarrow> find (tabHasTitle toLower query) ts)"

text \<open>
  Go's \<^verbatim>\<open>strings.TrimSpace\<close> and \<^verbatim>\<open>strings.ToLower\<close> on ASCII strings, to evaluate
  \<open>findTab\<close> on concrete ASCII inputs.
\<close>

definition asciiSpace :: "char \<Rightarrow> bool" where
  "asciiSpace c \<longleftrightarrow> c \<in> set [CHR 0x09, CHR 0x0A, CHR 0x0B, CHR 0x0C, CHR 0x0D, CHR '' '']"

definition asciiTrimSpace :: "string \<Rightarrow> string" where
  "asciiTrimSpace s = rev (dropWhile asciiSpace (rev (dropWhile asciiSpace s)))"

definition asciiToLower :: "string \<Rightarrow> string" where
  "asciiToLower s =
     map (\<lambda>c. if 65 \<le> (of_char c :: nat) \<and> (of_char c :: nat) \<le> 90
               then char_of ((of_char c :: nat) + 32) else c) s"

section \<open>The update command, in the specification's words\<close>

text \<open>
  \<open>endOfContentOffset\<close> is the live end-of-content offset: the last body element's
  \<^verbatim>\<open>EndIndex\<close> minus 1 when it exceeds 1, otherwise 1. \<open>deleteWholeBody\<close> is the one
  \<^verbatim>\<open>DeleteContentRange\<close> request of the replace mode, emitted when the document is not
  empty (the last \<^verbatim>\<open>EndIndex\<close> exceeds 2). The other functions read an event or a
  request: the cells, the placement index and the returned end offset of a table
  insertion, whether it succeeded, and whether a request is a \<^verbatim>\<open>DeleteContentRange\<close>.
\<close>

definition lastBodyElement :: "document \<Rightarrow> structural_element option" where
  "lastBodyElement doc =
     (case Body doc of
        None \<Rightarrow> None
      | Some b \<Rightarrow> if Body_Content b = [] then None else last (Body_Content b))"

definition endOfContentOffset :: "document \<Rightarrow> int64" where
  "endOfContentOffset doc =
     (case lastBodyElement doc of
        None \<Rightarrow> 1
      | Some el \<Rightarrow> if 1 < sint (EndIndex el) then EndIndex el - 1 else 1)"

definition deleteWholeBody :: "document \<Rightarrow> request list" where
  "deleteWholeBody doc =
     (case lastBodyElement doc of
        None \<Rightarrow> []
      | Some el \<Rightarrow>
          if 2 < sint (EndIndex el) then [DeleteContentRangeRequest 1 (EndIndex el - 1)] else [])"

fun tableEventCells :: "event \<Rightarrow> string list list option" where
  "tableEventCells (InsertNativeTable i c r) = Some c"
| "tableEventCells (BatchUpdate reqs r) = None"
| "tableEventCells (UploadLocalImage path r) = None"
| "tableEventCells (CleanupDriveFileIDsBestEffort ids) = None"

fun tableIndexOf :: "event \<Rightarrow> int64" where
  "tableIndexOf (InsertNativeTable i c r) = i"
| "tableIndexOf (BatchUpdate reqs r) = 0"
| "tableIndexOf (UploadLocalImage path r) = 0"
| "tableIndexOf (CleanupDriveFileIDsBestEffort ids) = 0"

fun tableEndOf :: "event \<Rightarrow> int64" where
  "tableEndOf (InsertNativeTable i c (Inr e)) = e"
| "tableEndOf (InsertNativeTable i c (Inl err)) = 0"
| "tableEndOf (BatchUpdate reqs r) = 0"
| "tableEndOf (UploadLocalImage path r) = 0"
| "tableEndOf (CleanupDriveFileIDsBestEffort ids) = 0"

fun tableInserted :: "event \<Rightarrow> bool" where
  "tableInserted (InsertNativeTable i c (Inr e)) = True"
| "tableInserted (InsertNativeTable i c (Inl err)) = False"
| "tableInserted (BatchUpdate reqs r) = False"
| "tableInserted (UploadLocalImage path r) = False"
| "tableInserted (CleanupDriveFileIDsBestEffort ids) = False"


section \<open>Example values\<close>

definition exampleParagraph :: "string list \<Rightarrow> structural_element" where
  "exampleParagraph runs =
     StructuralElement 0
       (Some \<lparr>Elements = map (\<lambda>s. Some \<lparr>TextRun = Some \<lparr>TextRun_Content = s\<rparr>\<rparr>) runs\<rparr>)
       None None"

definition exampleTable :: "string list list \<Rightarrow> structural_element" where
  "exampleTable rows =
     StructuralElement 0 None
       (Some (MkTable (map (\<lambda>cells. Some (MkTableRow
          (map (\<lambda>s. Some (MkTableCell [Some (exampleParagraph [s])])) cells))) rows)))
       None"

definition exampleBody :: body where
  "exampleBody =
     \<lparr>Body_Content = [Some (exampleParagraph [''Hello, '', ''world'']), None,
        Some (exampleTable [[''a'', ''b''], [''c'', ''d'']])]\<rparr>"

definition exampleDocument :: document where
  "exampleDocument = \<lparr>Body = Some exampleBody, Tabs = []\<rparr>"

definition exampleTab :: tab where
  "exampleTab =
     Tab (Some \<lparr>TabId = ''t.0'', Title = ''Notes''\<rparr>)
         (Some \<lparr>DocumentTab_Body = Some exampleBody\<rparr>) []"

definition exampleEnv :: update_env where
  "exampleEnv =
     \<lparr>markdownToDocsRequests =
        (\<lambda>content baseIndex.
           ([FormattingRequest ''bold''], content,
            [\<lparr>StartIndex = baseIndex + 9, Cells = [[''a'']]\<rparr>,
             \<lparr>StartIndex = baseIndex + 19, Cells = [[''b'']]\<rparr>,
             \<lparr>StartIndex = baseIndex + 29, Cells = [[''c'']]\<rparr>])),
      batchUpdate = (\<lambda>log requests. None),
      insertNativeTable = (\<lambda>log tableIndex cells. Inr (tableIndex + 5))\<rparr>"

definition failingEnv :: update_env where
  "failingEnv = exampleEnv
     \<lparr>insertNativeTable :=
        (\<lambda>log tableIndex cells.
           if length log < 2 then Inr (tableIndex + 5) else Inl (Error ''quota exceeded''))\<rparr>"


definition exampleLiveDocument :: document where
  "exampleLiveDocument =
     \<lparr>Body = Some \<lparr>Body_Content = [Some (StructuralElement 1 None None None),
                                   Some (StructuralElement 12 None None None)]\<rparr>,
      Tabs = []\<rparr>"

definition exampleTables :: "table_data list" where
  "exampleTables =
     [\<lparr>StartIndex = 10, Cells = [[''a'']]\<rparr>, \<lparr>StartIndex = 20, Cells = [[''b'']]\<rparr>,
      \<lparr>StartIndex = 30, Cells = [[''c'']]\<rparr>]"

definition exampleTableEvents :: "event list" where
  "exampleTableEvents =
     [InsertNativeTable 10 [[''a'']] (Inr 15), InsertNativeTable 24 [[''b'']] (Inr 29),
      InsertNativeTable 38 [[''c'']] (Inr 43)]"

definition exampleImagesEnv :: images_env where
  "exampleImagesEnv =
     \<lparr>newDocsService = None,
      documentsGet = Inr exampleLiveDocument,
      findPlaceholderIndices = (\<lambda>doc n. [(''<<IMG_0>>'', 5, 14)]),
      placeholder = (\<lambda>img. ''<<IMG_0>>''),
      isRemote = (\<lambda>img. False),
      resolveMarkdownImagePath = (\<lambda>file ref. Inr (''/docs/'' @ ref)),
      uploadLocalImage = (\<lambda>log path. Inr (''https://drive.example/file1'', ''file1'')),
      buildImageInsertRequests =
        (\<lambda>placeholders images imageURLs.
           [DeleteContentRangeRequest 5 14,
            InsertInlineImageRequest 5 ''https://drive.example/file1'']),
      imagesBatchUpdate = (\<lambda>log reqs. None)\<rparr>"

section \<open>Lemmas on the bounded walk\<close>

definition fits :: "int64 \<Rightarrow> string \<Rightarrow> bool" where
  "fits N buf \<longleftrightarrow> sint N \<le> 0 \<or> int (length buf) \<le> sint N"

definition outcome :: "int64 \<Rightarrow> string \<Rightarrow> string \<Rightarrow> panic + bool \<times> string \<Rightarrow> bool" where
  "outcome N buf t r \<longleftrightarrow>
     (if sint N \<le> 0 then r = Inr (True, buf @ t)
      else (r = Inr (True, buf @ t) \<and> int (length (buf @ t)) \<le> sint N)
         \<or> (r = Inr (False, take (nat (sint N)) (buf @ t)) \<and> sint N \<le> int (length (buf @ t))))"

lemma outcome_skip: "fits N buf \<Longrightarrow> outcome N buf [] (Inr (True, buf))"
  by (auto simp: outcome_def fits_def)

lemma nat_diff_int: "nat (a - int n) = nat a - n"
  by arith

lemma outcome_appendLimited:
  "fits N buf \<Longrightarrow> outcome N buf s (Inr (appendLimited buf N s))"
  by (auto simp: outcome_def fits_def appendLimited_def Let_def nat_diff_int)

lemma outcome_andThen:
  assumes "outcome N buf t1 r"
    and "\<And>b. b = buf @ t1 \<Longrightarrow> fits N b \<Longrightarrow> outcome N b t2 (k b)"
  shows "outcome N buf (t1 @ t2) (andThen r k)"
proof (cases "sint N \<le> 0")
  case True
  with assms(1) have r: "r = Inr (True, buf @ t1)" by (simp add: outcome_def)
  have "fits N (buf @ t1)" using True by (simp add: fits_def)
  from assms(2) [OF refl this] show ?thesis
    using True r by (simp add: outcome_def andThen_def)
next
  case False
  from assms(1) False consider
      (go) "r = Inr (True, buf @ t1)" "int (length (buf @ t1)) \<le> sint N"
    | (stop) "r = Inr (False, take (nat (sint N)) (buf @ t1))" "sint N \<le> int (length (buf @ t1))"
    by (auto simp: outcome_def)
  then show ?thesis
  proof cases
    case go
    then have "fits N (buf @ t1)" by (simp add: fits_def)
    from assms(2) [OF refl this] show ?thesis
      using False go by (simp add: outcome_def andThen_def)
  next
    case stop
    then show ?thesis using False by (simp add: outcome_def andThen_def)
  qed
qed

definition cellsText :: "nat \<Rightarrow> table_cell option list \<Rightarrow> string" where
  "cellsText cellIdx cells =
     (if cellIdx > 0 then concat (map (\<lambda>c. CHR 0x09 # cellText c) cells)
      else joinWith [CHR 0x09] (map cellText cells))"

definition rowsText :: "nat \<Rightarrow> table_row option list \<Rightarrow> string" where
  "rowsText rowIdx rows =
     (if rowIdx > 0 then concat (map (\<lambda>r. CHR 0x0A # rowText r) rows)
      else joinWith [CHR 0x0A] (map rowText rows))"

lemma joinWith_Cons: "joinWith sep (x # xs) = x @ concat (map (\<lambda>y. sep @ y) xs)"
  by (induction xs arbitrary: x) auto

lemma cellsText_Cons:
  "cellsText i (c # cs) = (if i > 0 then [CHR 0x09] else []) @ cellText c @ cellsText (Suc i) cs"
  by (simp add: cellsText_def joinWith_Cons comp_def)

lemma rowsText_Cons:
  "rowsText i (r # rs) = (if i > 0 then [CHR 0x0A] else []) @ rowText r @ rowsText (Suc i) rs"
  by (simp add: rowsText_def joinWith_Cons comp_def)

lemma cellsText_Nil: "cellsText i [] = []"
  by (simp add: cellsText_def)

lemma rowsText_Nil: "rowsText i [] = []"
  by (simp add: rowsText_def)

lemma outcome_paragraph:
  "fits N buf \<Longrightarrow> list_all (\<lambda>pe. pe \<noteq> None) ps \<Longrightarrow>
     outcome N buf (concat (map textRunText ps)) (appendParagraphElements buf N ps)"
proof (induction ps arbitrary: buf)
  case Nil
  then show ?case by (simp add: outcome_skip)
next
  case (Cons p ps)
  then obtain pe where p: "p = Some pe" by auto
  show ?case
  proof (cases "TextRun pe")
    case None
    then have "textRunText p = []" using p by (simp add: textRunText_def)
    then show ?thesis using Cons p None by simp
  next
    case (Some tr)
    have t: "textRunText p = TextRun_Content tr" using p Some by (simp add: textRunText_def)
    have "outcome N buf (TextRun_Content tr @ concat (map textRunText ps))
           (andThen (Inr (appendLimited buf N (TextRun_Content tr)))
              (\<lambda>buf'. appendParagraphElements buf' N ps))"
      using Cons by (intro outcome_andThen outcome_appendLimited) auto
    then show ?thesis using p Some t by simp
  qed
qed

lemma outcome_walk:
  "fits N buf \<Longrightarrow> nilFreeElement el \<Longrightarrow>
     outcome N buf (elementText el) (appendDocsElementText buf N el)"
  "fits N buf \<Longrightarrow> list_all nilFreeElement els \<Longrightarrow>
     outcome N buf (concat (map elementText els)) (appendContent buf N els)"
  "fits N buf \<Longrightarrow> list_all nilFreeCell cells \<Longrightarrow>
     outcome N buf (cellsText cellIdx cells) (appendTableCells buf N cellIdx cells)"
  "fits N buf \<Longrightarrow> list_all nilFreeRow rows \<Longrightarrow>
     outcome N buf (rowsText rowIdx rows) (appendTableRows buf N rowIdx rows)"
proof (induction buf N el and buf N els and buf N cellIdx cells and buf N rowIdx rows
    rule: appendDocsElementText_appendContent_appendTableCells_appendTableRows.induct)
  case (1 buf maxBytes)
  then show ?case by (simp add: outcome_skip)
next
  case (2 buf maxBytes el)
  then show ?case
    by (auto simp: outcome_skip outcome_paragraph paragraphText_def rowsText_def
        split: option.splits)
next
  case (3 buf maxBytes)
  then show ?case by (simp add: outcome_skip)
next
  case (4 buf maxBytes content rest)
  have "outcome maxBytes buf (elementText content @ concat (map elementText rest))
          (andThen (appendDocsElementText buf maxBytes content)
             (\<lambda>buf'. appendContent buf' maxBytes rest))"
    using 4 by (intro outcome_andThen) auto
  then show ?case by simp
next
  case (5 buf maxBytes cellIdx)
  then show ?case by (simp add: outcome_skip cellsText_Nil)
next
  case (6 buf maxBytes cellIdx cell cells)
  then obtain c where c: "cell = Some c" by (cases cell) auto
  have sep: "outcome maxBytes buf (if cellIdx > 0 then [CHR 0x09] else [])
      (if cellIdx > 0 then Inr (appendLimited buf maxBytes [CHR 0x09]) else Inr (True, buf))"
    using 6(3) by (simp add: outcome_skip outcome_appendLimited)
  have nf: "list_all nilFreeElement (TableCell_Content c)" "list_all nilFreeCell cells"
    using 6(4) c by simp_all
  have inner: "outcome maxBytes b
        (concat (map elementText (TableCell_Content c)) @ cellsText (Suc cellIdx) cells)
        (andThen (appendContent b maxBytes (TableCell_Content c))
           (\<lambda>b''. appendTableCells b'' maxBytes (Suc cellIdx) cells))"
    if "fits maxBytes b" for b
    by (rule outcome_andThen) (simp_all add: 6(1) 6(2) c that nf)
  have "outcome maxBytes buf
          ((if cellIdx > 0 then [CHR 0x09] else []) @ cellText cell @ cellsText (Suc cellIdx) cells)
          (appendTableCells buf maxBytes cellIdx (cell # cells))"
    unfolding appendTableCells.simps c option.case cellText.simps
    by (rule outcome_andThen [OF sep]) (simp add: inner)
  then show ?case by (simp add: cellsText_Cons)
next
  case (7 buf maxBytes rowIdx)
  then show ?case by (simp add: outcome_skip rowsText_Nil)
next
  case (8 buf maxBytes rowIdx row rows)
  then obtain r where r: "row = Some r" by (cases row) auto
  have sep: "outcome maxBytes buf (if rowIdx > 0 then [CHR 0x0A] else [])
      (if rowIdx > 0 then Inr (appendLimited buf maxBytes [CHR 0x0A]) else Inr (True, buf))"
    using 8(3) by (simp add: outcome_skip outcome_appendLimited)
  have nf: "list_all nilFreeCell (TableCells r)" "list_all nilFreeRow rows"
    using 8(4) r by simp_all
  have inner: "outcome maxBytes b
        (cellsText 0 (TableCells r) @ rowsText (Suc rowIdx) rows)
        (andThen (appendTableCells b maxBytes 0 (TableCells r))
           (\<lambda>b''. appendTableRows b'' maxBytes (Suc rowIdx) rows))"
    if "fits maxBytes b" for b
    by (rule outcome_andThen) (simp_all add: 8(1) 8(2) r that nf)
  have rt: "rowText row = cellsText 0 (TableCells r)"
    using r by (simp add: cellsText_def)
  have "outcome maxBytes buf
          ((if rowIdx > 0 then [CHR 0x0A] else []) @ rowText row @ rowsText (Suc rowIdx) rows)
          (appendTableRows buf maxBytes rowIdx (row # rows))"
    unfolding appendTableRows.simps r option.case rt [unfolded r]
    by (rule outcome_andThen [OF sep]) (simp add: inner)
  then show ?case by (simp add: rowsText_Cons)
qed

lemma unlimited_walk:
  "sint N \<le> 0 \<Longrightarrow> nilFreeElement el \<Longrightarrow>
     appendDocsElementText buf N el = Inr (True, buf @ elementText el)"
  "sint N \<le> 0 \<Longrightarrow> list_all nilFreeElement els \<Longrightarrow>
     appendContent buf N els = Inr (True, buf @ concat (map elementText els))"
  "sint N \<le> 0 \<Longrightarrow> list_all nilFreeCell cells \<Longrightarrow>
     appendTableCells buf N cellIdx cells = Inr (True, buf @ cellsText cellIdx cells)"
  "sint N \<le> 0 \<Longrightarrow> list_all nilFreeRow rows \<Longrightarrow>
     appendTableRows buf N rowIdx rows = Inr (True, buf @ rowsText rowIdx rows)"
  using outcome_walk [of N buf] by (simp_all add: outcome_def fits_def)

lemma unlimited_paragraph_panic:
  "sint N \<le> 0 \<Longrightarrow> \<not> list_all (\<lambda>pe. pe \<noteq> None) ps \<Longrightarrow>
     appendParagraphElements buf N ps = Inl NilDereference"
proof (induction ps arbitrary: buf)
  case Nil
  then show ?case by simp
next
  case (Cons p ps)
  then show ?case
    by (auto simp: andThen_def appendLimited_def split: option.splits)
qed

lemma unlimited_panic:
  "sint N \<le> 0 \<Longrightarrow> \<not> nilFreeElement el \<Longrightarrow>
     appendDocsElementText buf N el = Inl NilDereference"
  "sint N \<le> 0 \<Longrightarrow> \<not> list_all nilFreeElement els \<Longrightarrow>
     appendContent buf N els = Inl NilDereference"
  "sint N \<le> 0 \<Longrightarrow> \<not> list_all nilFreeCell cells \<Longrightarrow>
     appendTableCells buf N cellIdx cells = Inl NilDereference"
  "sint N \<le> 0 \<Longrightarrow> \<not> list_all nilFreeRow rows \<Longrightarrow>
     appendTableRows buf N rowIdx rows = Inl NilDereference"
proof (induction buf N el and buf N els and buf N cellIdx cells and buf N rowIdx rows
    rule: appendDocsElementText_appendContent_appendTableCells_appendTableRows.induct)
  case (1 buf maxBytes)
  then show ?case by simp
next
  case (2 buf maxBytes el)
  then show ?case
    by (auto simp: unlimited_paragraph_panic split: option.splits)
next
  case (3 buf maxBytes)
  then show ?case by simp
next
  case (4 buf maxBytes content rest)
  show ?case
  proof (cases "nilFreeElement content")
    case True
    then have "\<not> list_all nilFreeElement rest" using 4(4) by simp
    then show ?thesis
      using 4(2) 4(3) True by (simp add: unlimited_walk andThen_def)
  next
    case False
    then show ?thesis using 4(1) 4(3) by (simp add: andThen_def)
  qed
next
  case (5 buf maxBytes cellIdx)
  then show ?case by simp
next
  case (6 buf maxBytes cellIdx cell cells)
  show ?case
  proof (cases cell)
    case None
    then show ?thesis using 6(3) by (simp add: andThen_def appendLimited_def)
  next
    case (Some c)
    show ?thesis
    proof (cases "list_all nilFreeElement (TableCell_Content c)")
      case True
      then have "\<not> list_all nilFreeCell cells" using 6(4) Some by simp
      then show ?thesis
        using 6(2) [OF Some] 6(3) True Some
        by (simp add: unlimited_walk andThen_def appendLimited_def)
    next
      case False
      then show ?thesis
        using 6(1) [OF Some] 6(3) Some by (simp add: andThen_def appendLimited_def)
    qed
  qed
next
  case (7 buf maxBytes rowIdx)
  then show ?case by simp
next
  case (8 buf maxBytes rowIdx row rows)
  show ?case
  proof (cases row)
    case None
    then show ?thesis using 8(3) by (simp add: andThen_def appendLimited_def)
  next
    case (Some r)
    show ?thesis
    proof (cases "list_all nilFreeCell (TableCells r)")
      case True
      then have "\<not> list_all nilFreeRow rows" using 8(4) Some by simp
      then show ?thesis
        using 8(2) [OF Some] 8(3) True Some
        by (simp add: unlimited_walk andThen_def appendLimited_def)
    next
      case False
      then show ?thesis
        using 8(1) [OF Some] 8(3) Some by (simp add: andThen_def appendLimited_def)
    qed
  qed
qed

lemma bodyContentText_appendContent:
  "bodyContentText buf N els =
     (case appendContent buf N els of Inl e \<Rightarrow> Inl e | Inr x \<Rightarrow> Inr (snd x))"
  by (induction els arbitrary: buf) (auto simp: andThen_def split: sum.splits)

lemma bodyContentText_unlimited:
  "sint N \<le> 0 \<Longrightarrow>
     bodyContentText buf N els =
       (if list_all nilFreeElement els then Inr (buf @ concat (map elementText els))
        else Inl NilDereference)"
  by (simp add: bodyContentText_appendContent unlimited_walk unlimited_panic)

lemma bodyContentText_bounded:
  assumes "0 < sint N" "list_all nilFreeElement els"
  shows "bodyContentText [] N els = Inr (take (nat (sint N)) (concat (map elementText els)))"
proof -
  have "fits N []" using assms(1) by (simp add: fits_def)
  from outcome_walk(2) [OF this assms(2)] show ?thesis
    using assms(1) by (auto simp: outcome_def bodyContentText_appendContent)
qed

lemma bodyContentText_prefix:
  assumes "bodyContentText [] 0 els = Inr full"
  shows "bodyContentText [] N els = Inr (if sint N \<le> 0 then full else take (nat (sint N)) full)"
proof -
  have nf: "list_all nilFreeElement els" and full: "full = concat (map elementText els)"
    using assms by (auto simp: bodyContentText_unlimited split: if_splits)
  show ?thesis
    using nf full by (simp add: bodyContentText_unlimited bodyContentText_bounded)
qed

section \<open>Lemmas on tabs\<close>

lemma tabPaths_nonempty: "p \<in> set (tabPaths i tabs) \<Longrightarrow> p \<noteq> []"
  by (induction i tabs rule: tabPaths.induct) (auto split: option.splits)

lemma tabPaths_hd: "p \<in> set (tabPaths i tabs) \<Longrightarrow> i \<le> hd p"
  by (induction i tabs rule: tabPaths.induct) (fastforce split: option.splits)+

lemma tabPaths_sorted: "sorted_wrt (<) (tabPaths i tabs)"
proof (induction i tabs rule: tabPaths.induct)
  case (1 i)
  then show ?case by simp
next
  case (2 i tab tabs)
  show ?case
  proof (cases tab)
    case None
    then show ?thesis using 2 by simp
  next
    case (Some t)
    have a: "sorted_wrt (<) (map ((#) i) (tabPaths 0 (ChildTabs t)))"
      using 2(2) [OF Some] by (simp add: sorted_wrt_map)
    have b: "[i] < i # q" if "q \<in> set (tabPaths 0 (ChildTabs t))" for q
      using tabPaths_nonempty [OF that] by (cases q) auto
    have c: "i # q < p" if "p \<in> set (tabPaths (Suc i) tabs)" for p q
      using tabPaths_hd [OF that] tabPaths_nonempty [OF that] by (cases p) auto
    show ?thesis
      using Some a b c 2(3) [OF Some]
      by (auto simp: sorted_wrt_append)
  qed
qed

lemma tabAt_Cons_Suc: "tabAt (x # xs) (Suc j # q) = tabAt xs (j # q)"
  by simp

lemma tabPaths_set:
  "p \<in> set (tabPaths i tabs) \<longleftrightarrow> (\<exists>j q. p = (i + j) # q \<and> tabAt tabs (j # q) \<noteq> None)"
proof (induction i tabs arbitrary: p rule: tabPaths.induct)
  case (1 i)
  then show ?case by simp
next
  case (2 i tab tabs)
  have split: "(\<exists>j q. p = (i + j) # q \<and> tabAt (tab # tabs) (j # q) \<noteq> None) \<longleftrightarrow>
      (\<exists>q. p = i # q \<and> tabAt (tab # tabs) (0 # q) \<noteq> None) \<or>
      (\<exists>j q. p = (Suc i + j) # q \<and> tabAt tabs (j # q) \<noteq> None)" (is "?L \<longleftrightarrow> ?A \<or> ?B")
  proof
    assume ?L
    then obtain j q where jq: "p = (i + j) # q" "tabAt (tab # tabs) (j # q) \<noteq> None" by blast
    show "?A \<or> ?B"
    proof (cases j)
      case 0
      then show ?thesis using jq by auto
    next
      case (Suc k)
      then have "p = (Suc i + k) # q" "tabAt tabs (k # q) \<noteq> None"
        using jq by (simp_all del: tabAt.simps add: tabAt_Cons_Suc)
      then show ?thesis by blast
    qed
  next
    assume "?A \<or> ?B"
    then show ?L
    proof
      assume ?A
      then obtain q where "p = (i + 0) # q" "tabAt (tab # tabs) (0 # q) \<noteq> None" by auto
      then show ?L by blast
    next
      assume ?B
      then obtain j q where "p = (i + Suc j) # q" "tabAt (tab # tabs) (Suc j # q) \<noteq> None"
        by (auto simp del: tabAt.simps simp add: tabAt_Cons_Suc)
      then show ?L by blast
    qed
  qed
  show ?case
  proof (cases tab)
    case None
    then have "\<not> ?A" by simp
    then show ?thesis using None 2(1) [OF None] split by simp
  next
    case (Some t)
    have "?A \<longleftrightarrow> p = [i] \<or> (\<exists>q. p = i # q \<and> q \<in> set (tabPaths 0 (ChildTabs t)))"
    proof -
      have "tabAt (tab # tabs) (0 # q) \<noteq> None \<longleftrightarrow> q = [] \<or> q \<in> set (tabPaths 0 (ChildTabs t))" for q
      proof (cases q)
        case Nil
        then show ?thesis using Some by simp
      next
        case (Cons j q')
        then show ?thesis using Some 2(2) [OF Some, of q] by auto
      qed
      then show ?thesis by auto
    qed
    then show ?thesis
      using Some 2(3) [OF Some] split by auto
  qed
qed

lemma flattenTabs_paths:
  "flattenTabs (drop i all) = map (tabAt all) (tabPaths i (drop i all))"
proof (induction "drop i all" arbitrary: i all rule: flattenTabs.induct)
  case 1
  then show ?case by simp
next
  case (2 tab tabs)
  have d: "drop i all = tab # tabs" using 2(4) by simp
  have i: "i < length all"
  proof (rule ccontr)
    assume "\<not> i < length all"
    then have "drop i all = []" by simp
    with d show False by simp
  qed
  have tab: "all ! i = tab" using d by (rule nth_via_drop)
  have tabs: "tabs = drop (Suc i) all"
    using Cons_nth_drop_Suc [OF i] d by simp
  show ?case
  proof (cases tab)
    case None
    then show ?thesis using 2(1) [OF None tabs] 2(4) [symmetric] tabs by simp
  next
    case (Some t)
    have kids: "flattenTabs (ChildTabs t) = map (tabAt all) (map ((#) i) (tabPaths 0 (ChildTabs t)))"
    proof (cases "ChildTabs t")
      case Nil
      then show ?thesis by simp
    next
      case (Cons c cs)
      have "flattenTabs (drop 0 (ChildTabs t)) = map (tabAt (ChildTabs t)) (tabPaths 0 (drop 0 (ChildTabs t)))"
        by (rule 2(2) [OF Some]) (simp_all add: Cons)
      moreover have "tabAt all (i # q) = tabAt (ChildTabs t) q" if "q \<in> set (tabPaths 0 (ChildTabs t))" for q
        using tabPaths_nonempty [OF that] i tab Some by simp
      ultimately show ?thesis by simp
    qed
    have self: "tabAt all [i] = Some t" using i tab Some by simp
    show ?thesis
      using 2(3) [OF Some tabs] 2(4) [symmetric] tabs kids self Some
      by (auto simp: )
  qed
qed

lemma docsPlainText_body:
  "docsPlainText doc N = bodyContentText [] N (documentContent doc)"
  by (simp add: docsPlainText_def documentContent_def split: option.splits)

lemma tabPlainText_body:
  "tabPlainText tab N = bodyContentText [] N (tabContent tab)"
  by (simp add: tabPlainText_def tabContent_def split: option.splits)

lemma bodyContentText_full:
  "bodyContentText [] 0 els = Inr full \<Longrightarrow> full = concat (map elementText els)"
  by (auto simp: bodyContentText_unlimited split: if_splits)

lemma findTabById_find:
  "findTabById query (map Some ts) = Inr (find (tabHasId query) ts)"
  by (induction ts) (simp_all add: tabHasId_def)

lemma findTabByTitle_find:
  "findTabByTitle toLower (toLower query) (map Some ts) =
     Inr (find (tabHasTitle toLower query) ts)"
  by (induction ts) (simp_all add: tabHasTitle_def)

lemma flattenTabs_nonnil: "None \<notin> set (flattenTabs tabs)"
  by (induction tabs rule: flattenTabs.induct) (auto split: option.splits)

lemma example_docsPlainText:
  "docsPlainText (Some exampleDocument) 0 =
     Inr (''Hello, worlda'' @ [CHR 0x09] @ ''b'' @ [CHR 0x0A] @ ''c'' @ [CHR 0x09] @ ''d'')"
  by (simp add: docsPlainText_def exampleDocument_def exampleBody_def exampleParagraph_def
        exampleTable_def andThen_def appendLimited_def)

lemma example_tabPlainText:
  "tabPlainText (Some exampleTab) 0 =
     Inr (''Hello, worlda'' @ [CHR 0x09] @ ''b'' @ [CHR 0x0A] @ ''c'' @ [CHR 0x09] @ ''d'')"
  by (simp add: tabPlainText_def exampleTab_def exampleBody_def exampleParagraph_def
        exampleTable_def andThen_def appendLimited_def)

section \<open>Lemmas on the update command\<close>

lemma insertTables_log:
  "insertTables env off tables log = (res, log') \<Longrightarrow>
     \<exists>evs. log' = log @ evs \<and>
       map tableEventCells evs = map (Some \<circ> Cells) (take (length evs) tables) \<and>
       (case res of
          None \<Rightarrow> list_all tableInserted evs \<and> length evs = length tables
        | Some e \<Rightarrow>
            \<exists>evs0 i c err. evs = evs0 @ [InsertNativeTable i c (Inl err)] \<and>
               list_all tableInserted evs0 \<and> e = Wrap ''insert native table'' err)"
proof (induction tables arbitrary: off log)
  case Nil
  then show ?case by auto
next
  case (Cons table tables)
  let ?idx = "StartIndex table + off"
  let ?r = "insertNativeTable env log ?idx (Cells table)"
  let ?ev = "InsertNativeTable ?idx (Cells table) ?r"
  show ?case
  proof (cases ?r)
    case (Inl err)
    then have "res = Some (Wrap ''insert native table'' err)" "log' = log @ [?ev]"
      using Cons.prems by (simp_all add: Let_def)
    then show ?thesis using Inl
      by (intro exI [of _ "[?ev]"]) (auto intro: exI [of _ "[]"])
  next
    case (Inr tableEnd)
    let ?off = "if sint ?idx < sint tableEnd then off + ((tableEnd - ?idx) - 1) else off"
    have "insertTables env ?off tables (log @ [?ev]) = (res, log')"
      using Cons.prems Inr by (simp add: Let_def)
    from Cons.IH [OF this] obtain evs where evs: "log' = (log @ [?ev]) @ evs"
      "map tableEventCells evs = map (Some \<circ> Cells) (take (length evs) tables)"
      "case res of
          None \<Rightarrow> list_all tableInserted evs \<and> length evs = length tables
        | Some e \<Rightarrow>
            \<exists>evs0 i c err. evs = evs0 @ [InsertNativeTable i c (Inl err)] \<and>
               list_all tableInserted evs0 \<and> e = Wrap ''insert native table'' err"
      by blast
    have ok: "tableInserted ?ev" using Inr by simp
    show ?thesis
    proof (intro exI [of _ "?ev # evs"] conjI)
      show "log' = log @ ?ev # evs" using evs(1) by simp
      show "map tableEventCells (?ev # evs) =
          map (Some \<circ> Cells) (take (length (?ev # evs)) (table # tables))"
        using evs(2) by simp
      show "case res of
          None \<Rightarrow> list_all tableInserted (?ev # evs) \<and> length (?ev # evs) = length (table # tables)
        | Some e \<Rightarrow>
            \<exists>evs0 i c err. ?ev # evs = evs0 @ [InsertNativeTable i c (Inl err)] \<and>
               list_all tableInserted evs0 \<and> e = Wrap ''insert native table'' err"
      proof (cases res)
        case None
        then show ?thesis using evs(3) ok by simp
      next
        case (Some e)
        then obtain evs0 i c err where "evs = evs0 @ [InsertNativeTable i c (Inl err)]"
          "list_all tableInserted evs0" "e = Wrap ''insert native table'' err"
          using evs(3) by auto
        then have "?ev # evs = (?ev # evs0) @ [InsertNativeTable i c (Inl err)] \<and>
               list_all tableInserted (?ev # evs0) \<and> e = Wrap ''insert native table'' err"
          using ok by simp
        then show ?thesis using Some by (simp only: option.case) blast
      qed
    qed
  qed
qed

lemma failed_event_last:
  "pre @ InsertNativeTable i c (Inl err) # post = evs0 @ [InsertNativeTable i' c' (Inl err')] \<Longrightarrow>
   list_all tableInserted evs0 \<Longrightarrow> post = [] \<and> pre = evs0 \<and> err = err'"
proof (induction evs0 arbitrary: pre)
  case Nil
  then show ?case by (cases pre) auto
next
  case (Cons e es)
  show ?case
  proof (cases pre)
    case Nil
    then show ?thesis using Cons.prems by auto
  next
    case (Cons p ps)
    then show ?thesis using Cons.IH [of ps] Cons.prems by auto
  qed
qed

lemma Run_unfold:
  "DocsUpdateCmd_Run env c format content doc log =
     (let idx = (if Append c then endOfContentOffset doc else 1);
          compiled = (if format = ''markdown'' then markdownToDocsRequests env content idx
                      else ([], content, []));
          requests = (if Append c then [] else deleteWholeBody doc)
                     @ InsertTextRequest idx (fst (snd compiled)) # fst compiled;
          r = batchUpdate env log requests
      in case r of
           Some err \<Rightarrow> (Some (Wrap ''update document'' err), log @ [BatchUpdate requests r])
         | None \<Rightarrow> insertTables env 0 (snd (snd compiled)) (log @ [BatchUpdate requests r]))"
proof -
  have nil: "insertTables env 0 ts l = (None, l)" if "\<not> 0 < length ts" for ts l
    using that by simp
  show ?thesis
    unfolding DocsUpdateCmd_Run_def endOfContentOffset_def deleteWholeBody_def
      lastBodyElement_def Let_def
    by (auto split: option.splits simp: nil)
qed

lemma Run_log:
  assumes run: "DocsUpdateCmd_Run env c format content doc log = (res, log')"
    and compiled: "(if format = ''markdown''
          then markdownToDocsRequests env content (if Append c then endOfContentOffset doc else 1)
          else ([], content, [])) = (fmt, text, tables)"
  shows "\<exists>r evs. log' = log @ BatchUpdate
            ((if Append c then [] else deleteWholeBody doc)
               @ InsertTextRequest (if Append c then endOfContentOffset doc else 1) text # fmt) r # evs \<and>
          (case r of
             Some err \<Rightarrow> evs = [] \<and> res = Some (Wrap ''update document'' err)
           | None \<Rightarrow> insertTables env 0 tables
                (log @ [BatchUpdate ((if Append c then [] else deleteWholeBody doc)
               @ InsertTextRequest (if Append c then endOfContentOffset doc else 1) text # fmt) None])
                 = (res, log'))"
proof -
  let ?reqs = "(if Append c then [] else deleteWholeBody doc)
               @ InsertTextRequest (if Append c then endOfContentOffset doc else 1) text # fmt"
  let ?r = "batchUpdate env log ?reqs"
  show ?thesis
  proof (cases ?r)
    case None
    then have t: "insertTables env 0 tables (log @ [BatchUpdate ?reqs None]) = (res, log')"
      using run compiled unfolding Run_unfold Let_def by simp
    from insertTables_log [OF t] obtain evs where "log' = (log @ [BatchUpdate ?reqs None]) @ evs"
      by blast
    then have "log' = log @ BatchUpdate ?reqs None # evs" by simp
    with t show ?thesis by (intro exI [of _ None] exI [of _ evs]) simp
  next
    case (Some err)
    then have "log' = log @ BatchUpdate ?reqs (Some err) # []"
      "res = Some (Wrap ''update document'' err)"
      using run compiled unfolding Run_unfold Let_def by simp_all
    then show ?thesis by (intro exI [of _ "Some err"] exI [of _ "[]"]) simp
  qed
qed

lemma insertTables_event:
  assumes "insertTables env off tables log = (res, log @ evs)"
    and "k < length evs"
  shows "\<exists>p. evs ! k = InsertNativeTable p (Cells (tables ! k))
           (insertNativeTable env (log @ take k evs) p (Cells (tables ! k)))"
  using assms
proof (induction tables arbitrary: off log evs k)
  case Nil
  then show ?case by simp
next
  case (Cons table tables)
  let ?idx = "StartIndex table + off"
  let ?r = "insertNativeTable env log ?idx (Cells table)"
  let ?ev = "InsertNativeTable ?idx (Cells table) ?r"
  show ?case
  proof (cases ?r)
    case (Inl err)
    then have "log @ evs = log @ [?ev]"
      using Cons.prems(1) by (simp add: Let_def)
    then have "evs = [?ev]" by simp
    then show ?thesis using Cons.prems(2) by simp
  next
    case (Inr tableEnd)
    let ?off = "if sint ?idx < sint tableEnd then off + ((tableEnd - ?idx) - 1) else off"
    have t: "insertTables env ?off tables (log @ [?ev]) = (res, log @ evs)"
      using Cons.prems(1) Inr by (simp add: Let_def)
    from insertTables_log [OF t] obtain evs' where "log @ evs = (log @ [?ev]) @ evs'"
      by blast
    then have evs: "evs = ?ev # evs'" by simp
    show ?thesis
    proof (cases k)
      case 0
      then show ?thesis using evs by simp
    next
      case (Suc k')
      have t': "insertTables env ?off tables (log @ [?ev]) = (res, (log @ [?ev]) @ evs')"
        using t evs by simp
      have k': "k' < length evs'" using Cons.prems(2) Suc evs by simp
      from Cons.IH [OF t' k'] show ?thesis
        using Suc evs by simp
    qed
  qed
qed

lemma insertTables_placement:
  assumes "insertTables env off tables log = (res, log @ evs)"
    and "k < length evs"
    and "\<forall>j<k. sint (tableIndexOf (evs ! j)) < sint (tableEndOf (evs ! j))"
  shows "tableIndexOf (evs ! k) =
           StartIndex (tables ! k) + off
             + (\<Sum>j<k. tableEndOf (evs ! j) - tableIndexOf (evs ! j) - 1)"
  using assms
proof (induction tables arbitrary: off log evs k)
  case Nil
  then show ?case by simp
next
  case (Cons table tables)
  let ?idx = "StartIndex table + off"
  let ?r = "insertNativeTable env log ?idx (Cells table)"
  let ?ev = "InsertNativeTable ?idx (Cells table) ?r"
  show ?case
  proof (cases ?r)
    case (Inl err)
    then have "log @ evs = log @ [?ev]"
      using Cons.prems(1) by (simp add: Let_def)
    then have "evs = [?ev]" by simp
    then show ?thesis using Cons.prems(2) by simp
  next
    case (Inr tableEnd)
    let ?off = "if sint ?idx < sint tableEnd then off + ((tableEnd - ?idx) - 1) else off"
    have t: "insertTables env ?off tables (log @ [?ev]) = (res, log @ evs)"
      using Cons.prems(1) Inr by (simp add: Let_def)
    from insertTables_log [OF t] obtain evs' where "log @ evs = (log @ [?ev]) @ evs'"
      by blast
    then have evs: "evs = ?ev # evs'" by simp
    show ?thesis
    proof (cases k)
      case 0
      then show ?thesis using evs by simp
    next
      case (Suc k')
      have t': "insertTables env ?off tables (log @ [?ev]) = (res, (log @ [?ev]) @ evs')"
        using t evs by simp
      have k': "k' < length evs'" using Cons.prems(2) Suc evs by simp
      have gt: "\<forall>j<k'. sint (tableIndexOf (evs' ! j)) < sint (tableEndOf (evs' ! j))"
        using Cons.prems(3) Suc evs by auto
      have first: "sint ?idx < sint tableEnd"
        using Cons.prems(3) Suc evs Inr by auto
      from Cons.IH [OF t' k' gt] first
      have ih: "tableIndexOf (evs' ! k') =
           StartIndex (tables ! k') + (off + ((tableEnd - ?idx) - 1))
             + (\<Sum>j<k'. tableEndOf (evs' ! j) - tableIndexOf (evs' ! j) - 1)"
        by simp
      have sum: "(\<Sum>j<k. tableEndOf (evs ! j) - tableIndexOf (evs ! j) - 1) =
           (tableEnd - ?idx - 1) + (\<Sum>j<k'. tableEndOf (evs' ! j) - tableIndexOf (evs' ! j) - 1)"
        unfolding Suc evs by (subst sum.lessThan_Suc_shift) (simp add: Inr)
      show ?thesis
        using ih Suc evs unfolding sum by (simp add: algebra_simps)
    qed
  qed
qed

lemma example_insertTables:
  "insertTables exampleEnv 0 exampleTables [] = (None, exampleTableEvents)"
  by (simp add: exampleEnv_def exampleTables_def exampleTableEvents_def Let_def)

lemma example_compile_replace:
  "markdownToDocsRequests exampleEnv ''# T''
      (if Append \<lparr>Append = False\<rparr> then endOfContentOffset exampleLiveDocument else 1)
     = ([FormattingRequest ''bold''], ''# T'', exampleTables)"
  by (simp add: exampleEnv_def exampleTables_def)

lemma example_run_replace:
  "DocsUpdateCmd_Run exampleEnv \<lparr>Append = False\<rparr> ''markdown'' ''# T'' exampleLiveDocument []
     = (None,
        [] @ BatchUpdate [DeleteContentRangeRequest 1 11, InsertTextRequest 1 ''# T'',
                     FormattingRequest ''bold''] None # exampleTableEvents)"
  by (simp add: DocsUpdateCmd_Run_def exampleEnv_def exampleLiveDocument_def
      exampleTableEvents_def Let_def)

lemma example_run_failing:
  "DocsUpdateCmd_Run failingEnv \<lparr>Append = False\<rparr> ''markdown'' ''# T'' exampleLiveDocument []
     = (Some (Wrap ''insert native table'' (Error ''quota exceeded'')),
        [] @ [BatchUpdate [DeleteContentRangeRequest 1 11, InsertTextRequest 1 ''# T'',
                      FormattingRequest ''bold''] None,
              InsertNativeTable 10 [[''a'']] (Inr 15)]
           @ InsertNativeTable 24 [[''b'']] (Inl (Error ''quota exceeded'')) # [])"
  by (simp add: DocsUpdateCmd_Run_def failingEnv_def exampleEnv_def exampleLiveDocument_def
      Let_def)



section \<open>The claims\<close>

text \<open>
  C1. Whenever the extraction with budget 0 returns a text \<open>full\<close> (it meets no nil
  paragraph element, row or cell), \<open>full\<close> is the concatenation of the texts of the
  elements in document order, and the extraction with any budget \<open>maxBytes\<close> returns:
  the same \<open>full\<close> when \<open>maxBytes \<le> 0\<close>, and otherwise exactly the first \<open>maxBytes\<close>
  bytes of \<open>full\<close>, all of it when it is shorter. So the output has
  \<open>min maxBytes (length full)\<close> bytes, the last fragment is cut to fill the budget, and
  nothing that follows the cut in document order is written. This holds for
  \<^verbatim>\<open>docsPlainText\<close> and for \<^verbatim>\<open>tabPlainText\<close>.
\<close>

theorem plain_text_truncation:
  "(docsPlainText doc 0 = Inr full \<longrightarrow>
      docsPlainText doc maxBytes =
        Inr (if sint maxBytes \<le> 0 then full else take (nat (sint maxBytes)) full) \<and>
      full = concat (map elementText (documentContent doc))) \<and>
   (tabPlainText tab 0 = Inr full' \<longrightarrow>
      tabPlainText tab maxBytes =
        Inr (if sint maxBytes \<le> 0 then full' else take (nat (sint maxBytes)) full') \<and>
      full' = concat (map elementText (tabContent tab)))"
  unfolding docsPlainText_body tabPlainText_body
  using bodyContentText_prefix bodyContentText_full by blast

theorem plain_text_truncation_witness:
  "docsPlainText (Some exampleDocument) 0 =
     Inr (''Hello, worlda'' @ [CHR 0x09] @ ''b'' @ [CHR 0x0A] @ ''c'' @ [CHR 0x09] @ ''d'') \<and>
   docsPlainText (Some exampleDocument) 9 = Inr ''Hello, wo'' \<and>
   tabPlainText (Some exampleTab) 0 =
     Inr (''Hello, worlda'' @ [CHR 0x09] @ ''b'' @ [CHR 0x0A] @ ''c'' @ [CHR 0x09] @ ''d'') \<and>
   tabPlainText (Some exampleTab) 9 = Inr ''Hello, wo''"
  using plain_text_truncation [of "Some exampleDocument" _ 9 "Some exampleTab"]
    example_docsPlainText example_tabPlainText
  by simp

text \<open>
  C2, as amended. The loop starts with the offset 0. For every table insertion \<open>k\<close> that
  the loop makes, if each earlier insertion returned an end offset greater than its own
  placement index, then table \<open>k\<close> is placed at its start offset plus the sum, over the
  earlier tables \<open>j\<close>, of (end offset of \<open>j\<close>) - (placement index of \<open>j\<close>) - 1, in
  \<^verbatim>\<open>int64\<close> arithmetic; and the insertion is made with the cells of table \<open>k\<close>, its
  answer being the service's answer at that index.
\<close>

theorem cumulative_offset_placement:
  assumes "insertTables env 0 tables log = (res, log @ evs)"
    and "k < length evs"
    and "\<forall>j<k. sint (tableIndexOf (evs ! j)) < sint (tableEndOf (evs ! j))"
  shows "tableIndexOf (evs ! k) =
           StartIndex (tables ! k)
             + (\<Sum>j<k. tableEndOf (evs ! j) - tableIndexOf (evs ! j) - 1) \<and>
         (\<exists>p. evs ! k = InsertNativeTable p (Cells (tables ! k))
            (insertNativeTable env (log @ take k evs) p (Cells (tables ! k))))"
proof
  show "tableIndexOf (evs ! k) =
           StartIndex (tables ! k)
             + (\<Sum>j<k. tableEndOf (evs ! j) - tableIndexOf (evs ! j) - 1)"
    using insertTables_placement [OF assms] by simp
  show "\<exists>p. evs ! k = InsertNativeTable p (Cells (tables ! k))
            (insertNativeTable env (log @ take k evs) p (Cells (tables ! k)))"
    using assms(1) assms(2) by (rule insertTables_event)
qed

theorem cumulative_offset_placement_witness:
  "insertTables exampleEnv 0 exampleTables [] = (None, [] @ exampleTableEvents) \<and>
   (2 :: nat) < length exampleTableEvents \<and>
   sint (tableIndexOf (exampleTableEvents ! 0)) < sint (tableEndOf (exampleTableEvents ! 0)) \<and>
   sint (tableIndexOf (exampleTableEvents ! 1)) < sint (tableEndOf (exampleTableEvents ! 1)) \<and>
   tableIndexOf (exampleTableEvents ! 2) = 30 + ((15 - 10 - 1) + (29 - 24 - 1)) \<and>
   tableIndexOf (exampleTableEvents ! 2) = 38"
proof -
  have run: "insertTables exampleEnv 0 exampleTables [] = (None, [] @ exampleTableEvents)"
    using example_insertTables by simp
  have k: "(2 :: nat) < length exampleTableEvents"
    by (simp add: exampleTableEvents_def)
  have gt: "\<forall>j<2. sint (tableIndexOf (exampleTableEvents ! j))
              < sint (tableEndOf (exampleTableEvents ! j))"
    by (simp add: exampleTableEvents_def less_Suc_eq numeral_2_eq_2)
  from cumulative_offset_placement [OF run k gt, THEN conjunct1]
  have "tableIndexOf (exampleTableEvents ! 2) =
           StartIndex (exampleTables ! 2)
             + (\<Sum>j<2. tableEndOf (exampleTableEvents ! j) - tableIndexOf (exampleTableEvents ! j) - 1)"
    by simp
  then show ?thesis
    using run k by (simp add: exampleTableEvents_def exampleTables_def numeral_2_eq_2)
qed

text \<open>
  C2 as stated subtracts the start offset of table \<open>j\<close>, not its placement index. With
  start offsets 10, 20, 30 and a service that returns the placement index plus 5, the
  loop places the tables at 10, 24 and 38, while the stated sum gives 42 for the third.
\<close>

theorem start_offset_formula_counterexample:
  "insertTables exampleEnv 0 exampleTables [] = (None, exampleTableEvents) \<and>
   sint (StartIndex (exampleTables ! 0)) < sint (StartIndex (exampleTables ! 1)) \<and>
   sint (StartIndex (exampleTables ! 1)) < sint (StartIndex (exampleTables ! 2)) \<and>
   sint (tableIndexOf (exampleTableEvents ! 0)) < sint (tableEndOf (exampleTableEvents ! 0)) \<and>
   sint (tableIndexOf (exampleTableEvents ! 1)) < sint (tableEndOf (exampleTableEvents ! 1)) \<and>
   sint (tableIndexOf (exampleTableEvents ! 2)) < sint (tableEndOf (exampleTableEvents ! 2)) \<and>
   tableIndexOf (exampleTableEvents ! 2) = 38 \<and>
   StartIndex (exampleTables ! 2)
     + (\<Sum>j<2. tableEndOf (exampleTableEvents ! j) - StartIndex (exampleTables ! j) - 1) = 42 \<and>
   tableIndexOf (exampleTableEvents ! 2) \<noteq>
     StartIndex (exampleTables ! 2)
       + (\<Sum>j<2. tableEndOf (exampleTableEvents ! j) - StartIndex (exampleTables ! j) - 1)"
proof -
  have placed: "tableIndexOf (exampleTableEvents ! 2) = 38"
    by (simp add: exampleTableEvents_def)
  have stated: "StartIndex (exampleTables ! 2)
     + (\<Sum>j<2. tableEndOf (exampleTableEvents ! j) - StartIndex (exampleTables ! j) - 1) = 42"
    by (simp add: exampleTableEvents_def exampleTables_def numeral_2_eq_2)
  have differ: "(38 :: int64) \<noteq> 42"
    by simp
  have order: "sint (StartIndex (exampleTables ! 0)) < sint (StartIndex (exampleTables ! 1))"
    "sint (StartIndex (exampleTables ! 1)) < sint (StartIndex (exampleTables ! 2))"
    "sint (tableIndexOf (exampleTableEvents ! 0)) < sint (tableEndOf (exampleTableEvents ! 0))"
    "sint (tableIndexOf (exampleTableEvents ! 1)) < sint (tableEndOf (exampleTableEvents ! 1))"
    "sint (tableIndexOf (exampleTableEvents ! 2)) < sint (tableEndOf (exampleTableEvents ! 2))"
    by (simp_all add: exampleTableEvents_def exampleTables_def)
  show ?thesis
    using example_insertTables order differ unfolding placed stated by simp
qed

text \<open>
  C3. One local image whose placeholder is found, and an upload that succeeds with the
  file identifier \<open>''file1''\<close>: the pass uploads the file, applies the batch update and
  returns, and the cleanup that runs on return receives the empty list, not
  \<open>[''file1'']\<close>. The claim that every uploaded file is passed to the cleanup fails on
  the code.
\<close>

theorem insertImages_cleanup_misses_upload:
  "insertImages exampleImagesEnv ''/docs/a.md'' [\<lparr>index = 0, originalRef = ''pic.png''\<rparr>] [] =
     (None,
      [UploadLocalImage ''/docs/pic.png'' (Inr (''https://drive.example/file1'', ''file1'')),
       BatchUpdate [DeleteContentRangeRequest 5 14,
                    InsertInlineImageRequest 5 ''https://drive.example/file1''] None,
       CleanupDriveFileIDsBestEffort []])"
  by (simp add: insertImages_def exampleImagesEnv_def Let_def)

text \<open>
  C4. In the markdown path the update sends one batch update, the first event of the
  run. Its request list is the \<^verbatim>\<open>InsertText\<close> request for the plain text followed by the
  formatting requests in their order, preceded in replace mode by the one
  \<^verbatim>\<open>DeleteContentRange\<close> request when the document is not empty and by nothing
  otherwise. When the batch update fails nothing follows it. The events after it are
  the insertions of the tables of the compiler's list, in that order, all of them when
  the run succeeds.
\<close>

theorem markdown_update_order:
  assumes "DocsUpdateCmd_Run env c ''markdown'' content doc log = (res, log')"
    and "markdownToDocsRequests env content (if Append c then endOfContentOffset doc else 1)
           = (formattingRequests, textToInsert, tables)"
  shows "\<exists>r evs.
      log' = log @ BatchUpdate
          ((if Append c then [] else deleteWholeBody doc)
             @ InsertTextRequest (if Append c then endOfContentOffset doc else 1) textToInsert
             # formattingRequests) r # evs \<and>
      (r \<noteq> None \<longrightarrow> evs = []) \<and>
      map tableEventCells evs = map (Some \<circ> Cells) (take (length evs) tables) \<and>
      (res = None \<longrightarrow> length evs = length tables)"
proof -
  let ?reqs = "(if Append c then [] else deleteWholeBody doc)
     @ InsertTextRequest (if Append c then endOfContentOffset doc else 1) textToInsert
     # formattingRequests"
  from Run_log [OF assms(1), of formattingRequests textToInsert tables] assms(2)
  obtain r evs where log': "log' = log @ BatchUpdate ?reqs r # evs"
    and r: "case r of
             Some err \<Rightarrow> evs = [] \<and> res = Some (Wrap ''update document'' err)
           | None \<Rightarrow> insertTables env 0 tables (log @ [BatchUpdate ?reqs None]) = (res, log')"
    by auto
  show ?thesis
  proof (cases r)
    case None
    then have t: "insertTables env 0 tables (log @ [BatchUpdate ?reqs None]) = (res, log')"
      using r by simp
    from insertTables_log [OF t] obtain evs' where evs':
      "log' = (log @ [BatchUpdate ?reqs None]) @ evs'"
      "map tableEventCells evs' = map (Some \<circ> Cells) (take (length evs') tables)"
      "case res of
          None \<Rightarrow> list_all tableInserted evs' \<and> length evs' = length tables
        | Some e \<Rightarrow>
            \<exists>evs0 i c err. evs' = evs0 @ [InsertNativeTable i c (Inl err)] \<and>
               list_all tableInserted evs0 \<and> e = Wrap ''insert native table'' err"
      by blast
    have "evs' = evs" using evs'(1) log' None by simp
    then show ?thesis using log' None evs'(2) evs'(3)
      by (intro exI [of _ r] exI [of _ evs]) (auto split: option.splits)
  next
    case (Some err)
    then show ?thesis using log' r
      by (intro exI [of _ r] exI [of _ evs]) simp
  qed
qed

theorem markdown_update_order_witness:
  "DocsUpdateCmd_Run exampleEnv \<lparr>Append = False\<rparr> ''markdown'' ''# T'' exampleLiveDocument []
     = (None,
        [] @ BatchUpdate [DeleteContentRangeRequest 1 11, InsertTextRequest 1 ''# T'',
                     FormattingRequest ''bold''] None # exampleTableEvents) \<and>
   markdownToDocsRequests exampleEnv ''# T'' 1
     = ([FormattingRequest ''bold''], ''# T'', exampleTables) \<and>
   map tableEventCells exampleTableEvents = map (Some \<circ> Cells) exampleTables"
  using markdown_update_order [OF example_run_replace example_compile_replace]
    example_run_replace example_compile_replace
  by (simp add: exampleTableEvents_def exampleTables_def)

text \<open>
  C5. When a table insertion of the run returns an error, that event is the last of the
  run: no later table is inserted and no other request is sent; the run returns that
  error, wrapped; and the events before it are the batch update and the insertions that
  succeeded, which with the failed one are the insertions of the first tables of the
  compiler's list, in order.
\<close>

theorem table_failure_stops_update:
  assumes "DocsUpdateCmd_Run env c format content doc log =
             (res, log @ pre @ InsertNativeTable tableIndex cells (Inl err) # post)"
  shows "post = [] \<and> res = Some (Wrap ''insert native table'' err) \<and>
         (\<exists>requests evs. pre = BatchUpdate requests None # evs \<and> list_all tableInserted evs \<and>
            map tableEventCells (evs @ [InsertNativeTable tableIndex cells (Inl err)]) =
              map (Some \<circ> Cells) (take (Suc (length evs))
                (snd (snd (if format = ''markdown''
                   then markdownToDocsRequests env content
                          (if Append c then endOfContentOffset doc else 1)
                   else ([], content, []))))))"
proof -
  obtain fmt plain tables where compiled: "(if format = ''markdown''
          then markdownToDocsRequests env content (if Append c then endOfContentOffset doc else 1)
          else ([], content, [])) = (fmt, plain, tables)"
    by (metis prod_cases3)
  let ?F = "InsertNativeTable tableIndex cells (Inl err)"
  from Run_log [OF assms compiled] obtain reqs r evs where
    log': "log @ pre @ ?F # post = log @ BatchUpdate reqs r # evs"
    and r: "case r of
             Some e \<Rightarrow> evs = [] \<and> res = Some (Wrap ''update document'' e)
           | None \<Rightarrow> insertTables env 0 tables (log @ [BatchUpdate reqs None])
                 = (res, log @ pre @ ?F # post)"
    by blast
  from log' have eq: "pre @ ?F # post = BatchUpdate reqs r # evs" by simp
  then obtain pre' where pre: "pre = BatchUpdate reqs r # pre'" and evs: "evs = pre' @ ?F # post"
    by (cases pre) auto
  then have rN: "r = None" using r by (cases r) auto
  then have t: "insertTables env 0 tables (log @ [BatchUpdate reqs None])
                 = (res, log @ pre @ ?F # post)"
    using r by simp
  from insertTables_log [OF t] obtain evs' where evs':
    "log @ pre @ ?F # post = (log @ [BatchUpdate reqs None]) @ evs'"
    "map tableEventCells evs' = map (Some \<circ> Cells) (take (length evs') tables)"
    "case res of
          None \<Rightarrow> list_all tableInserted evs' \<and> length evs' = length tables
        | Some e \<Rightarrow>
            \<exists>evs0 i c err. evs' = evs0 @ [InsertNativeTable i c (Inl err)] \<and>
               list_all tableInserted evs0 \<and> e = Wrap ''insert native table'' err"
    by blast
  have same: "evs' = pre' @ ?F # post" using evs'(1) pre rN by simp
  show ?thesis
  proof (cases res)
    case None
    then have "list_all tableInserted (pre' @ ?F # post)" using evs'(3) same by simp
    then show ?thesis by simp
  next
    case (Some e)
    then obtain evs0 i c' err' where e: "evs' = evs0 @ [InsertNativeTable i c' (Inl err')]"
      "list_all tableInserted evs0" "e = Wrap ''insert native table'' err'"
      using evs'(3) by auto
    from failed_event_last [OF e(1) [unfolded same] e(2)]
    have last: "post = []" "pre' = evs0" "err = err'" by simp_all
    have cells: "map tableEventCells (pre' @ [?F]) =
        map (Some \<circ> Cells) (take (Suc (length pre')) tables)"
      using evs'(2) same last(1) by simp
    have "pre = BatchUpdate reqs None # pre' \<and> list_all tableInserted pre' \<and>
        map tableEventCells (pre' @ [?F]) =
          map (Some \<circ> Cells) (take (Suc (length pre')) tables)"
      using pre rN e(2) last(2) cells by simp
    then have "\<exists>requests evs. pre = BatchUpdate requests None # evs \<and>
        list_all tableInserted evs \<and>
        map tableEventCells (evs @ [?F]) =
          map (Some \<circ> Cells) (take (Suc (length evs)) tables)"
      by blast
    then show ?thesis using Some e(3) last compiled by simp
  qed
qed

theorem table_failure_stops_update_witness:
  "DocsUpdateCmd_Run failingEnv \<lparr>Append = False\<rparr> ''markdown'' ''# T'' exampleLiveDocument []
     = (Some (Wrap ''insert native table'' (Error ''quota exceeded'')),
        [BatchUpdate [DeleteContentRangeRequest 1 11, InsertTextRequest 1 ''# T'',
                      FormattingRequest ''bold''] None,
         InsertNativeTable 10 [[''a'']] (Inr 15),
         InsertNativeTable 24 [[''b'']] (Inl (Error ''quota exceeded''))]) \<and>
   length (snd (snd (markdownToDocsRequests failingEnv ''# T'' 1))) = 3"
  using table_failure_stops_update [OF example_run_failing] example_run_failing
  by (simp add: failingEnv_def exampleEnv_def)




text \<open>
  C7, as amended. For every list of tabs (none of them nil) and every query,
  \<^verbatim>\<open>findTab\<close> returns the first tab whose identifier equals the query with its leading
  and trailing white space removed; if there is none, the first tab whose title equals
  that trimmed query up to case; and no tab (not an error) if there is none either.
\<close>

theorem findTab_trimmed_query:
  "findTab trimSpace toLower (map Some ts) query =
     Inr (findTabSpec toLower ts (trimSpace query))"
  by (simp add: findTab_def findTabSpec_def findTabById_find findTabByTitle_find Let_def
      split: option.splits)

text \<open>
  C7 as stated compares the identifiers with the query itself. On the query \<open>'' a''\<close>
  and one tab with the identifier \<open>''a''\<close> and the title \<open>''x''\<close>, no identifier and no
  title equals the query, so the stated rule finds no tab; \<^verbatim>\<open>findTab\<close> returns the tab.
\<close>

theorem findTab_untrimmed_query_counterexample:
  "findTabSpec asciiToLower [Tab (Some \<lparr>TabId = ''a'', Title = ''x''\<rparr>) None []] '' a'' = None \<and>
   findTab asciiTrimSpace asciiToLower
       [Some (Tab (Some \<lparr>TabId = ''a'', Title = ''x''\<rparr>) None [])] '' a''
     = Inr (Some (Tab (Some \<lparr>TabId = ''a'', Title = ''x''\<rparr>) None []))"
  by (simp add: findTab_def findTabSpec_def tabHasId_def tabHasTitle_def
      asciiTrimSpace_def asciiSpace_def asciiToLower_def)

text \<open>
  C8. \<^verbatim>\<open>flattenTabs\<close> lists the tabs of the tree in pre-order. The result is the list
  of the tabs at some paths, those paths are strictly increasing in the lexicographic
  order (a path comes before each of its extensions, so a tab comes before its
  descendants, and a subtree comes before the subtrees of the later siblings), and
  they are exactly the paths at which the tree has a non-nil tab, so every such tab is
  listed exactly once. For the tree \<open>A[B[D,E],C]\<close> the result is \<open>[A,B,D,E,C]\<close>.
\<close>

theorem flattenTabs_preorder:
  "(\<exists>paths. flattenTabs tabs = map (tabAt tabs) paths \<and> sorted_wrt (<) paths \<and>
       set paths = {p. tabAt tabs p \<noteq> None}) \<and>
   flattenTabs [Some (Tab a ta [Some (Tab b tb [Some (Tab d td []), Some (Tab e te [])]),
                               Some (Tab c tc [])])]
     = [Some (Tab a ta [Some (Tab b tb [Some (Tab d td []), Some (Tab e te [])]),
                        Some (Tab c tc [])]),
        Some (Tab b tb [Some (Tab d td []), Some (Tab e te [])]),
        Some (Tab d td []), Some (Tab e te []), Some (Tab c tc [])]"
proof
  have "flattenTabs tabs = map (tabAt tabs) (tabPaths 0 tabs)"
    using flattenTabs_paths [of 0 tabs] by simp
  moreover have "sorted_wrt (<) (tabPaths 0 tabs)"
    by (rule tabPaths_sorted)
  moreover have "set (tabPaths 0 tabs) = {p. tabAt tabs p \<noteq> None}"
  proof (rule set_eqI)
    fix p
    show "p \<in> set (tabPaths 0 tabs) \<longleftrightarrow> p \<in> {p. tabAt tabs p \<noteq> None}"
      by (cases p) (auto simp: tabPaths_set simp del: tabAt.simps(2))
  qed
  ultimately show "\<exists>paths. flattenTabs tabs = map (tabAt tabs) paths \<and>
      sorted_wrt (<) paths \<and> set paths = {p. tabAt tabs p \<noteq> None}"
    by blast
next
  show "flattenTabs [Some (Tab a ta [Some (Tab b tb [Some (Tab d td []), Some (Tab e te [])]),
                               Some (Tab c tc [])])]
     = [Some (Tab a ta [Some (Tab b tb [Some (Tab d td []), Some (Tab e te [])]),
                        Some (Tab c tc [])]),
        Some (Tab b tb [Some (Tab d td []), Some (Tab e te [])]),
        Some (Tab d td []), Some (Tab e te []), Some (Tab c tc [])]"
    by simp
qed

text \<open>
  C9. With an unlimited budget (\<open>maxBytes \<le> 0\<close>), the walk of an element appends to
  the buffer exactly \<open>elementText\<close> of the element: for a paragraph the text runs in
  order, for a table the rows joined by a newline and the cells of a row joined by a
  tab, each cell being the extraction of its content, for a table of contents the
  extraction of its content. The walk panics exactly when it meets a nil paragraph
  element, row or cell.
\<close>

theorem unlimited_element_text:
  "sint maxBytes \<le> 0 \<Longrightarrow>
     appendDocsElementText buf maxBytes (Some el) =
       (if nilFreeElement (Some el) then Inr (True, buf @ elementText (Some el))
        else Inl NilDereference)"
proof (cases "nilFreeElement (Some el)")
  case True
  assume "sint maxBytes \<le> 0"
  from unlimited_walk(1) [OF this True] show ?thesis using True by (simp only: if_True)
next
  case False
  assume "sint maxBytes \<le> 0"
  from unlimited_panic(1) [OF this False] show ?thesis using False by (simp only: if_False)
qed

theorem unlimited_element_text_witness:
  "sint (0 :: int64) \<le> 0 \<and>
   appendDocsElementText ''> '' 0 (Some (exampleTable [[''a'', ''b''], [''c'', ''d'']])) =
     Inr (True, ''> a'' @ [CHR 0x09] @ ''b'' @ [CHR 0x0A] @ ''c'' @ [CHR 0x09] @ ''d'')"
  using unlimited_element_text [of 0 "''> ''" "exampleTable [[''a'', ''b''], [''c'', ''d'']]"]
  by (simp add: exampleTable_def exampleParagraph_def paragraphText_def textRunText_def)

text \<open>
  C10. For every budget, \<^verbatim>\<open>docsPlainText\<close> returns the empty string, without a panic,
  on a nil document and on a document whose body is nil, and \<^verbatim>\<open>tabPlainText\<close> does so
  on a nil tab, on a tab whose DocumentTab is nil and on a tab whose DocumentTab has a
  nil body.
\<close>

theorem plain_text_nil_boundaries:
  "docsPlainText None maxBytes = Inr [] \<and>
   docsPlainText (Some (d\<lparr>Body := None\<rparr>)) maxBytes = Inr [] \<and>
   tabPlainText None maxBytes = Inr [] \<and>
   tabPlainText (Some (Tab props None children)) maxBytes = Inr [] \<and>
   tabPlainText (Some (Tab props (Some (dt\<lparr>DocumentTab_Body := None\<rparr>)) children)) maxBytes
     = Inr []"
  by (simp add: docsPlainText_def tabPlainText_def)

end
